theory Spec2Isabelle
  imports Main
begin

section \<open>Strings, errors and the character tables of the host language\<close>

text \<open>
  A Python \<open>str\<close> is a sequence of Unicode code points; a code point is a natural number.
\<close>

type_synonym ustr = "nat list"

definition ustr_of :: "string \<Rightarrow> ustr" where
  "ustr_of s = map of_char s"

text \<open>
  The only exception the pipeline could raise on a string input is the \<open>IndexError\<close> of
  an index out of range (\<open>lower[i]\<close>, \<open>s[0]\<close>, \<open>tokens[-1]\<close>).
\<close>

datatype error = IndexError

definition py_index :: "'a list \<Rightarrow> int \<Rightarrow> error + 'a" where
  "py_index xs i =
     (let n = int (length xs); j = (if i < 0 then i + n else i)
      in if 0 \<le> j \<and> j < n then Inr (xs ! nat j) else Inl IndexError)"

definition slice :: "'a list \<Rightarrow> nat \<Rightarrow> nat \<Rightarrow> 'a list" where
  \<comment> \<open>\<open>xs[b:e]\<close> for \<open>0 \<le> b\<close>, \<open>0 \<le> e\<close>; a slice never raises\<close>
  "slice xs b e = take (e - b) (drop b xs)"

text \<open>
  The Unicode character database is part of the interpreter, not of the repository.  Its
  ASCII part is written out below; the entries of the code points from 128 on are taken as
  a parameter, so that every theorem holds for whatever the database says there.
\<close>

record unicode_db =
  db_alnum :: "nat \<Rightarrow> bool"
  db_alpha :: "nat \<Rightarrow> bool"
  db_tolower :: "nat \<Rightarrow> nat"
  db_lower_full :: "nat \<Rightarrow> nat list"
  db_upper_full :: "nat \<Rightarrow> nat list"
  db_cased :: "nat \<Rightarrow> bool"
  db_case_ignorable :: "nat \<Rightarrow> bool"

definition ascii_upper :: "nat \<Rightarrow> bool" where
  "ascii_upper c = (65 \<le> c \<and> c \<le> 90)"

definition ascii_lower :: "nat \<Rightarrow> bool" where
  "ascii_lower c = (97 \<le> c \<and> c \<le> 122)"

definition ascii_letter :: "nat \<Rightarrow> bool" where
  \<comment> \<open>the class \<open>[a-zA-Z]\<close>\<close>
  "ascii_letter c = (ascii_lower c \<or> ascii_upper c)"

definition ascii_digit :: "nat \<Rightarrow> bool" where
  "ascii_digit c = (48 \<le> c \<and> c \<le> 57)"

definition uni_isalpha :: "unicode_db \<Rightarrow> nat \<Rightarrow> bool" where
  "uni_isalpha db c = (if c < 128 then ascii_letter c else db_alpha db c)"

definition uni_isalnum :: "unicode_db \<Rightarrow> nat \<Rightarrow> bool" where
  "uni_isalnum db c = (if c < 128 then ascii_letter c \<or> ascii_digit c else db_alnum db c)"

definition uni_isword :: "unicode_db \<Rightarrow> nat \<Rightarrow> bool" where
  \<comment> \<open>\<open>\w\<close> of a \<open>str\<close> pattern: alphanumeric or the underscore\<close>
  "uni_isword db c = (uni_isalnum db c \<or> c = 95)"

definition uni_tolower :: "unicode_db \<Rightarrow> nat \<Rightarrow> nat" where
  \<comment> \<open>the simple (one code point) lower-case mapping, used by case-insensitive matching\<close>
  "uni_tolower db c = (if c < 128 then (if ascii_upper c then c + 32 else c) else db_tolower db c)"

definition py_isspace :: "nat \<Rightarrow> bool" where
  \<comment> \<open>\<open>str.isspace\<close> of one code point, which is also \<open>\s\<close> of a \<open>str\<close> pattern\<close>
  "py_isspace c =
     ((9 \<le> c \<and> c \<le> 13) \<or> (28 \<le> c \<and> c \<le> 32) \<or> c = 0x85 \<or> c = 0xA0 \<or> c = 0x1680
      \<or> (0x2000 \<le> c \<and> c \<le> 0x200A) \<or> c = 0x2028 \<or> c = 0x2029 \<or> c = 0x202F
      \<or> c = 0x205F \<or> c = 0x3000)"

definition to_lower_full :: "unicode_db \<Rightarrow> nat \<Rightarrow> ustr" where
  "to_lower_full db c =
     (if c < 128 then [if ascii_upper c then c + 32 else c] else db_lower_full db c)"

definition to_upper_full :: "unicode_db \<Rightarrow> nat \<Rightarrow> ustr" where
  "to_upper_full db c =
     (if c < 128 then [if ascii_lower c then c - 32 else c] else db_upper_full db c)"

definition handle_capital_sigma :: "unicode_db \<Rightarrow> ustr \<Rightarrow> nat \<Rightarrow> nat" where
  \<comment> \<open>a capital sigma becomes the final sigma after a cased letter and before none\<close>
  "handle_capital_sigma db s i =
     (let left = dropWhile (db_case_ignorable db) (rev (take i s));
          right = dropWhile (db_case_ignorable db) (drop (Suc i) s)
      in if (left \<noteq> [] \<and> db_cased db (hd left)) \<and> (right = [] \<or> \<not> db_cased db (hd right))
         then 0x3C2 else 0x3C3)"

definition lower_ucs4 :: "unicode_db \<Rightarrow> ustr \<Rightarrow> nat \<Rightarrow> ustr" where
  "lower_ucs4 db s i =
     (if s ! i = 0x3A3 then [handle_capital_sigma db s i] else to_lower_full db (s ! i))"

definition str_lower :: "unicode_db \<Rightarrow> ustr \<Rightarrow> ustr" where
  \<comment> \<open>\<open>s.lower()\<close>\<close>
  "str_lower db s = concat (map (lower_ucs4 db s) [0..<length s])"

definition str_upper :: "unicode_db \<Rightarrow> ustr \<Rightarrow> ustr" where
  \<comment> \<open>\<open>s.upper()\<close>\<close>
  "str_upper db s = concat (map (to_upper_full db) s)"

section \<open>The regular expressions of the program\<close>

text \<open>
  The patterns of the program use character classes, sequencing, greedy repetition,
  negative look-behind and look-ahead, the word boundary and one capturing group.  The
  matcher returns every way the pattern can match from a position, in the order in which
  the backtracking engine of \<open>re\<close> tries them; the engine takes the first.  A matcher state
  is the position and the span of the group.
\<close>

datatype re =
    In "nat \<Rightarrow> bool"
  | Seq re re
  | Star re
  | AssertNot nat re
  | Boundary "nat \<Rightarrow> bool"
  | Group re

type_synonym mstate = "nat \<times> (nat \<times> nat) option"

definition at_boundary :: "(nat \<Rightarrow> bool) \<Rightarrow> ustr \<Rightarrow> nat \<Rightarrow> bool" where
  \<comment> \<open>\<open>\b\<close>: exactly one of the characters before and after the position is a word character\<close>
  "at_boundary w s i =
     (s \<noteq> [] \<and> ((0 < i \<and> w (s ! (i - 1))) \<noteq> (i < length s \<and> w (s ! i))))"

function rmatch :: "re \<Rightarrow> ustr \<Rightarrow> mstate \<Rightarrow> mstate list" where
  "rmatch (In p) s (i, g) = (if i < length s \<and> p (s ! i) then [(Suc i, g)] else [])"
| "rmatch (Seq a b) s st = concat (map (rmatch b s) (rmatch a s st))"
| "rmatch (Star a) s (i, g) =
     concat (map (\<lambda>(j, g'). if i < j \<and> j \<le> length s then rmatch (Star a) s (j, g') else [])
                 (rmatch a s (i, g))) @ [(i, g)]"
| "rmatch (AssertNot back a) s (i, g) =
     (if back \<le> i \<and> rmatch a s (i - back, g) \<noteq> [] then [] else [(i, g)])"
| "rmatch (Boundary w) s (i, g) = (if at_boundary w s i then [(i, g)] else [])"
| "rmatch (Group a) s (i, g) = map (\<lambda>(j, _). (j, Some (i, j))) (rmatch a s (i, g))"
  by pat_completeness auto
termination
  by (relation "measures [\<lambda>(r, s, st). size r, \<lambda>(r, s, st). length s - fst st]") auto

declare rmatch.simps(3) [simp del]

definition Rep1 :: "re \<Rightarrow> re" where
  \<comment> \<open>\<open>a+\<close>\<close>
  "Rep1 a = Seq a (Star a)"

lemma rmatch_bounds_aux:
  "m \<in> set (rmatch r s st) \<Longrightarrow> fst st \<le> fst m \<and> (fst st \<le> length s \<longrightarrow> fst m \<le> length s)"
proof (induction r s st arbitrary: m rule: rmatch.induct)
  case (1 p s i g)
  then show ?case by (auto split: if_splits)
next
  case (2 a b s st)
  from "2.prems" obtain k where k: "k \<in> set (rmatch a s st)" and m: "m \<in> set (rmatch b s k)"
    by auto
  from "2.IH"(1)[OF k] "2.IH"(2)[OF k m] show ?case by auto
next
  case (3 a s i g)
  show ?case
  proof (cases "m = (i, g)")
    case True
    then show ?thesis by simp
  next
    case False
    from "3.prems" have "m \<in> set (concat (map (\<lambda>(j, g'). if i < j \<and> j \<le> length s
        then rmatch (Star a) s (j, g') else []) (rmatch a s (i, g))) @ [(i, g)])"
      by (subst (asm) rmatch.simps(3)) simp
    with False obtain j h where k: "(j, h) \<in> set (rmatch a s (i, g))"
      and ij: "i < j" "j \<le> length s" and m: "m \<in> set (rmatch (Star a) s (j, h))"
      by (auto split: if_splits)
    from "3.IH"(2)[OF k refl _ m] ij show ?thesis by auto
  qed
next
  case (4 k a s i g)
  then show ?case by (auto split: if_splits)
next
  case (5 w s i g)
  then show ?case by (auto split: if_splits)
next
  case (6 a s i g)
  then show ?case by auto
qed

lemma rmatch_bounds:
  "(e, g') \<in> set (rmatch r s (i, g)) \<Longrightarrow> i \<le> e \<and> (i \<le> length s \<longrightarrow> e \<le> length s)"
  using rmatch_bounds_aux[of "(e, g')" r s "(i, g)"] by simp

subsection \<open>Searching, substituting, splitting\<close>

text \<open>
  The drivers follow the loops of the \<open>re\<close> module: a search tries each start position
  in turn and takes the first way the pattern matches there; after an empty match the
  next search must advance (\<open>must_advance\<close>), so it skips the empty match at its first
  position.
\<close>

definition first_match :: "re \<Rightarrow> ustr \<Rightarrow> nat \<Rightarrow> bool \<Rightarrow> mstate option" where
  "first_match r s i ma =
     (case filter (\<lambda>(e, g). \<not> (ma \<and> e = i)) (rmatch r s (i, None)) of
        [] \<Rightarrow> None
      | m # _ \<Rightarrow> Some m)"

function re_search_from :: "re \<Rightarrow> ustr \<Rightarrow> nat \<Rightarrow> bool \<Rightarrow> (nat \<times> mstate) option" where
  "re_search_from r s i ma =
     (if length s < i then None
      else case first_match r s i ma of
             Some m \<Rightarrow> Some (i, m)
           | None \<Rightarrow> re_search_from r s (Suc i) False)"
  by pat_completeness auto
termination
  by (relation "measure (\<lambda>(r, s, i, ma). Suc (length s) - i)") auto

lemma first_match_bounds:
  assumes "first_match r s i ma = Some (e, g)"
  shows "i \<le> e \<and> (i \<le> length s \<longrightarrow> e \<le> length s) \<and> (ma \<longrightarrow> e \<noteq> i)"
proof -
  from assms obtain ms where "filter (\<lambda>(e, g). \<not> (ma \<and> e = i)) (rmatch r s (i, None)) = (e, g) # ms"
    by (auto simp: first_match_def split: list.splits)
  then have "(e, g) \<in> set (filter (\<lambda>(e, g). \<not> (ma \<and> e = i)) (rmatch r s (i, None)))"
    by (metis list.set_intros(1))
  then have "(e, g) \<in> set (rmatch r s (i, None))" and "\<not> (ma \<and> e = i)"
    by auto
  with rmatch_bounds[of e g r s i None] show ?thesis by auto
qed

lemma re_search_from_bounds:
  "re_search_from r s i ma = Some (b, e, g) \<Longrightarrow>
     i \<le> b \<and> b \<le> e \<and> e \<le> length s \<and> (ma \<and> b = i \<longrightarrow> e \<noteq> i)"
proof (induction r s i ma rule: re_search_from.induct)
  case (1 r s i ma)
  show ?case
  proof (cases "first_match r s i ma")
    case None
    with "1.prems" have le: "\<not> length s < i"
      and rec: "re_search_from r s (Suc i) False = Some (b, e, g)"
      by (auto simp: re_search_from.simps[of r s i ma] split: if_splits)
    from "1.IH"[OF le None rec] show ?thesis by auto
  next
    case (Some m)
    with "1.prems" have le: "\<not> length s < i" and m: "m = (e, g)" "b = i"
      by (auto simp: re_search_from.simps[of r s i ma] split: if_splits)
    from first_match_bounds[of r s i ma e g] Some m le show ?thesis by auto
  qed
qed

function re_spans :: "re \<Rightarrow> ustr \<Rightarrow> nat \<Rightarrow> bool \<Rightarrow> (nat \<times> mstate) list" where
  "re_spans r s i ma =
     (case re_search_from r s i ma of
        None \<Rightarrow> []
      | Some (b, e, g) \<Rightarrow> (b, e, g) # re_spans r s e (e = b))"
  by pat_completeness auto
termination
proof (relation "measures [\<lambda>(r, s, i, ma). Suc (length s) - i, \<lambda>(r, s, i, ma). if ma then 0 else 1]")
  show "wf (measures [\<lambda>(r, s, i, ma). Suc (length s) - i, \<lambda>(r, s, i, ma). if ma then 0 else (1::nat)])"
    by simp
next
  fix r s i ma x2 b y e g
  assume "re_search_from r s i ma = Some x2" "(b, y) = x2" "(e, g) = y"
  then have "re_search_from r s i ma = Some (b, e, g)" by simp
  from re_search_from_bounds[OF this]
  show "((r, s, e, e = b), r, s, i, ma)
         \<in> measures [\<lambda>(r, s, i, ma). Suc (length s) - i, \<lambda>(r, s, i, ma). if ma then 0 else (1::nat)]"
    by auto
qed

definition group_text :: "ustr \<Rightarrow> (nat \<times> nat) option \<Rightarrow> ustr" where
  \<comment> \<open>\<open>m.group(1)\<close>; every pattern of the program closes its group whenever it matches\<close>
  "group_text s g = (case g of None \<Rightarrow> [] | Some (b, e) \<Rightarrow> slice s b e)"

fun sub_join :: "ustr \<Rightarrow> ustr \<Rightarrow> nat \<Rightarrow> (nat \<times> mstate) list \<Rightarrow> ustr" where
  "sub_join repl s i [] = drop i s"
| "sub_join repl s i ((b, e, g) # ms) = slice s i b @ repl @ sub_join repl s e ms"

definition re_sub :: "re \<Rightarrow> ustr \<Rightarrow> ustr \<Rightarrow> ustr" where
  \<comment> \<open>\<open>re.sub(pattern, repl, s)\<close> for a replacement without escapes\<close>
  "re_sub r repl s = sub_join repl s 0 (re_spans r s 0 False)"

fun split_join :: "ustr \<Rightarrow> nat \<Rightarrow> (nat \<times> mstate) list \<Rightarrow> ustr list" where
  "split_join s i [] = [drop i s]"
| "split_join s i ((b, e, g) # ms) = slice s i b # group_text s g # split_join s e ms"

definition re_split :: "re \<Rightarrow> ustr \<Rightarrow> ustr list" where
  \<comment> \<open>\<open>re.split(pattern, s)\<close> for a pattern with one group: the group's text is kept\<close>
  "re_split r s = split_join s 0 (re_spans r s 0 False)"

definition re_findall :: "re \<Rightarrow> ustr \<Rightarrow> ustr list" where
  \<comment> \<open>\<open>re.findall(pattern, s)\<close> for a pattern with one group\<close>
  "re_findall r s = map (\<lambda>(b, e, g). group_text s g) (re_spans r s 0 False)"

definition re_search :: "re \<Rightarrow> ustr \<Rightarrow> (nat \<times> mstate) option" where
  \<comment> \<open>\<open>re.search(pattern, s)\<close>: the start and the end state of the first match\<close>
  "re_search r s = re_search_from r s 0 False"

section \<open>The text normalizer\<close>

definition count_whitespace :: "ustr \<Rightarrow> int" where
  "count_whitespace text = sum_list (map (\<lambda>ch. 1) (filter py_isspace text))"

definition is_quote :: "nat \<Rightarrow> bool" where
  \<comment> \<open>the class of the two curly quotes and the straight double quote\<close>
  "is_quote c = (c = 0x201C \<or> c = 0x201D \<or> c = 0x22)"

definition lit_i :: "unicode_db \<Rightarrow> nat \<Rightarrow> bool" where
  \<comment> \<open>the literal \<open>i\<close> under \<open>(?i:...)\<close>: the lower-cased character is \<open>i\<close> or the dotless i,
      which has the same upper case\<close>
  "lit_i db c = (uni_tolower db c = 0x69 \<or> uni_tolower db c = 0x131)"

definition lit_z :: "unicode_db \<Rightarrow> nat \<Rightarrow> bool" where
  "lit_z db c = (uni_tolower db c = 0x7A)"

definition iz_pattern :: "unicode_db \<Rightarrow> re" where
  "iz_pattern db =
     Seq (AssertNot 1 (In is_quote))
       (Seq (Boundary (uni_isword db))
         (Seq (In (lit_i db))
           (Seq (In (lit_z db))
             (Seq (Boundary (uni_isword db))
               (AssertNot 0 (In is_quote))))))"

definition fix_iz :: "unicode_db \<Rightarrow> ustr \<Rightarrow> ustr" where
  "fix_iz db text = re_sub (iz_pattern db) (ustr_of ''is'') text"

definition is_delim :: "nat \<Rightarrow> bool" where
  \<comment> \<open>the class \<open>[.!?:]\<close>\<close>
  "is_delim c = (c = 46 \<or> c = 33 \<or> c = 63 \<or> c = 58)"

definition split_pattern :: re where
  "split_pattern = Group (Seq (In is_delim) (Star (In py_isspace)))"

definition split_sentences :: "ustr \<Rightarrow> ustr list" where
  "split_sentences text = re_split split_pattern text"

definition sentence_case :: "unicode_db \<Rightarrow> ustr \<Rightarrow> error + ustr" where
  "sentence_case db segment =
     (let lower = str_lower db segment in
      case re_search (In ascii_letter) lower of
        None \<Rightarrow> Inr lower
      | Some (i, m) \<Rightarrow>
          (case py_index lower (int i) of
             Inl e \<Rightarrow> Inl e
           | Inr c \<Rightarrow> Inr (take i lower @ str_upper db [c] @ drop (i + 1) lower)))"

fun normalize_loop :: "unicode_db \<Rightarrow> nat \<Rightarrow> ustr list \<Rightarrow> ustr list \<Rightarrow> error + ustr list" where
  "normalize_loop db i [] out = Inr out"
| "normalize_loop db i (p # ps) out =
     (if i mod 2 = 0 then
        (case sentence_case db p of
           Inl e \<Rightarrow> Inl e
         | Inr c \<Rightarrow> normalize_loop db (Suc i) ps (out @ [c]))
      else normalize_loop db (Suc i) ps (out @ [p]))"

definition normalize_case :: "unicode_db \<Rightarrow> ustr \<Rightarrow> error + ustr" where
  "normalize_case db text =
     (case normalize_loop db 0 (split_sentences text) [] of
        Inl e \<Rightarrow> Inl e
      | Inr out \<Rightarrow> Inr (concat out))"

definition word_pattern :: "unicode_db \<Rightarrow> re" where
  "word_pattern db =
     Seq (Boundary (uni_isword db))
       (Seq (Group (Rep1 (In ascii_letter))) (Boundary (uni_isword db)))"

fun last_words_loop :: "unicode_db \<Rightarrow> nat \<Rightarrow> ustr list \<Rightarrow> ustr list \<Rightarrow> error + ustr list" where
  "last_words_loop db i [] words = Inr words"
| "last_words_loop db i (p # ps) words =
     (if i mod 2 = 0 then
        (let tokens = re_findall (word_pattern db) p in
         if tokens \<noteq> [] then
           (case py_index tokens (- 1) of
              Inl e \<Rightarrow> Inl e
            | Inr w \<Rightarrow> last_words_loop db (Suc i) ps (words @ [w]))
         else last_words_loop db (Suc i) ps words)
      else last_words_loop db (Suc i) ps words)"

definition last_words :: "unicode_db \<Rightarrow> ustr \<Rightarrow> error + ustr list" where
  "last_words db text = last_words_loop db 0 (split_sentences text) []"

fun str_join :: "ustr \<Rightarrow> ustr list \<Rightarrow> ustr" where
  "str_join sep [] = []"
| "str_join sep [w] = w"
| "str_join sep (w # ws) = w @ sep @ str_join sep ws"

definition make_sentence_from_last_words :: "unicode_db \<Rightarrow> ustr list \<Rightarrow> error + ustr" where
  "make_sentence_from_last_words db words =
     (if words = [] then Inr []
      else let s = str_join (ustr_of '' '') words @ ustr_of ''.'' in
           case py_index s 0 of
             Inl e \<Rightarrow> Inl e
           | Inr c \<Rightarrow> Inr (str_upper db [c] @ drop 1 s))"

definition process_homework :: "unicode_db \<Rightarrow> ustr \<Rightarrow> error + (ustr \<times> int \<times> ustr)" where
  "process_homework db text =
     (let whitespace_count = count_whitespace text;
          fixed = fix_iz db text
      in case normalize_case db fixed of
           Inl e \<Rightarrow> Inl e
         | Inr normalized \<Rightarrow>
             (case last_words db normalized of
                Inl e \<Rightarrow> Inl e
              | Inr lw \<Rightarrow>
                  (case make_sentence_from_last_words db lw of
                     Inl e \<Rightarrow> Inl e
                   | Inr extra \<Rightarrow>
                       Inr (normalized @ (if extra \<noteq> [] then [10, 10] @ extra else []),
                            whitespace_count, extra))))"

text \<open>
  A sample of the character database for evaluating examples: the entries of
  \<open>U+00C9\<close>, \<open>U+00E9\<close> (E with acute), \<open>U+0130\<close> (capital I with dot above) and \<open>U+0131\<close>
  (dotless i); every other code point from 128 on is left without case and outside the
  letters.
\<close>

definition sample_db :: unicode_db where
  "sample_db =
     \<lparr>db_alnum = (\<lambda>c. c = 0xC9 \<or> c = 0xE9 \<or> c = 0x130 \<or> c = 0x131),
      db_alpha = (\<lambda>c. c = 0xC9 \<or> c = 0xE9 \<or> c = 0x130 \<or> c = 0x131),
      db_tolower = (\<lambda>c. if c = 0xC9 then 0xE9 else if c = 0x130 then 0x69 else c),
      db_lower_full = (\<lambda>c. if c = 0xC9 then [0xE9] else if c = 0x130 then [0x69, 0x307] else [c]),
      db_upper_full = (\<lambda>c. if c = 0xE9 then [0xC9] else if c = 0x131 then [0x49] else [c]),
      db_cased = (\<lambda>c. ascii_letter c \<or> c = 0xC9 \<or> c = 0xE9 \<or> c = 0x130 \<or> c = 0x131),
      db_case_ignorable = (\<lambda>c. c = 0x27 \<or> c = 0x2E \<or> c = 0x3A \<or> c = 0x5E \<or> c = 0x60)\<rparr>"

section \<open>Properties of the drivers\<close>


declare re_search_from.simps [simp del]
declare re_spans.simps [simp del]

lemma re_search_from_past: "length s < i \<Longrightarrow> re_search_from r s i ma = None"
  by (subst re_search_from.simps) simp

lemma re_search_from_None_step:
  "first_match r s i ma = None \<Longrightarrow> re_search_from r s i ma = re_search_from r s (Suc i) False"
  by (subst re_search_from.simps) (simp add: re_search_from_past)

lemma re_search_from_Some_step:
  "i \<le> length s \<Longrightarrow> first_match r s i ma = Some m \<Longrightarrow> re_search_from r s i ma = Some (i, m)"
  by (subst re_search_from.simps) simp

lemma re_spans_past: "length s < i \<Longrightarrow> re_spans r s i ma = []"
  by (subst re_spans.simps) (simp add: re_search_from_past)

lemma re_spans_None_step:
  "first_match r s i ma = None \<Longrightarrow> re_spans r s i ma = re_spans r s (Suc i) False"
proof -
  assume a: "first_match r s i ma = None"
  show ?thesis
  proof (cases "length s < Suc i")
    case True
    then have "re_search_from r s i ma = None"
      using a by (simp add: re_search_from_None_step re_search_from_past)
    then have "re_spans r s i ma = []" by (subst re_spans.simps) simp
    with True show ?thesis by (simp add: re_spans_past)
  next
    case False
    show ?thesis
    proof (cases "re_search_from r s (Suc i) False")
      case None
      then show ?thesis
        by (subst re_spans.simps, subst (2) re_spans.simps)
           (simp add: re_search_from_None_step[OF a])
    next
      case (Some x)
      obtain b e g where x: "x = (b, e, g)" by (cases x) auto
      from re_search_from_bounds[of r s "Suc i" False b e g] Some x
      have "Suc i \<le> b" "b \<le> e" by auto
      show ?thesis
        by (subst re_spans.simps, subst (2) re_spans.simps)
           (simp add: re_search_from_None_step[OF a] Some x)
    qed
  qed
qed

lemma re_spans_Some_step:
  "i \<le> length s \<Longrightarrow> first_match r s i ma = Some (e, g) \<Longrightarrow>
     re_spans r s i ma = (i, e, g) # re_spans r s e (e = i)"
  by (subst re_spans.simps) (simp add: re_search_from_Some_step)

lemma spans_induct [case_names past skip hit]:
  assumes past: "\<And>i ma. length s < i \<Longrightarrow> Q i ma"
    and skip: "\<And>i ma. i \<le> length s \<Longrightarrow> first_match r s i ma = None \<Longrightarrow> Q (Suc i) False \<Longrightarrow> Q i ma"
    and hit: "\<And>i ma e g. i \<le> length s \<Longrightarrow> first_match r s i ma = Some (e, g) \<Longrightarrow>
                 i \<le> e \<Longrightarrow> e \<le> length s \<Longrightarrow> Q e (e = i) \<Longrightarrow> Q i ma"
  shows "Q i ma"
proof (induction "2 * (Suc (length s) - i) + (if ma then 0 else (1::nat))" arbitrary: i ma rule: less_induct)
  case less
  show ?case
  proof (cases "length s < i")
    case True
    then show ?thesis by (rule past)
  next
    case False
    then have le: "i \<le> length s" by simp
    show ?thesis
    proof (cases "first_match r s i ma")
      case None
      have "Q (Suc i) False" using le by (intro less) auto
      with le None show ?thesis by (rule skip)
    next
      case (Some m)
      obtain e g where m: "m = (e, g)" by (cases m) auto
      from first_match_bounds[of r s i ma e g] Some m le
      have b: "i \<le> e" "e \<le> length s" "ma \<longrightarrow> e \<noteq> i" by auto
      have "Q e (e = i)" using b le by (intro less) auto
      with le Some m b show ?thesis by (auto intro: hit)
    qed
  qed
qed

section \<open>The misspelling corrector\<close>

text \<open>
  The pattern of \<open>fix_iz\<close> matches at a position exactly when \<open>iz_at\<close> holds there, and
  then it matches the two characters from that position.
\<close>


lemma ustr_of_is: "ustr_of ''is'' = [0x69, 0x73]"
  by (simp add: ustr_of_def)

definition iz_at :: "unicode_db \<Rightarrow> ustr \<Rightarrow> nat \<Rightarrow> bool" where
  "iz_at db s i =
     (i + 1 < length s \<and> lit_i db (s ! i) \<and> lit_z db (s ! (i + 1))
      \<and> \<not> (0 < i \<and> is_quote (s ! (i - 1)))
      \<and> at_boundary (uni_isword db) s i
      \<and> at_boundary (uni_isword db) s (i + 2)
      \<and> \<not> (i + 2 < length s \<and> is_quote (s ! (i + 2))))"

lemma rmatch_iz:
  "rmatch (iz_pattern db) s (i, g) = (if iz_at db s i then [(i + 2, g)] else [])"
  by (auto simp: iz_pattern_def iz_at_def)

lemma first_match_iz:
  "first_match (iz_pattern db) s i ma = (if iz_at db s i then Some (i + 2, None) else None)"
  by (simp add: first_match_def rmatch_iz)

lemma lit_i_not_z: "lit_i db c \<Longrightarrow> \<not> lit_z db c"
  by (auto simp: lit_i_def lit_z_def)

lemma iz_at_no_overlap: "iz_at db s i \<Longrightarrow> \<not> iz_at db s (Suc i)"
  by (auto simp: iz_at_def dest: lit_i_not_z)

lemma re_spans_hd_bounds:
  "re_spans r s i ma = (b, e, g) # ms \<Longrightarrow> i \<le> b \<and> b \<le> e \<and> e \<le> length s"
  using re_search_from_bounds[of r s i ma b e g]
  by (subst (asm) re_spans.simps) (auto split: option.splits)

lemma sub_join_shift:
  assumes "i < length s" and "\<And>b e g ms. X = (b, e, g) # ms \<Longrightarrow> i < b"
  shows "sub_join repl s i X = s ! i # sub_join repl s (Suc i) X"
proof (cases X)
  case Nil
  then show ?thesis using assms(1) by (simp add: Cons_nth_drop_Suc)
next
  case (Cons x ms)
  obtain b e g where x: "x = (b, e, g)" by (cases x) auto
  from assms(2)[of b e g ms] Cons x have "i < b" by simp
  then have "b - i = Suc (b - Suc i)" by arith
  with assms(1) have "slice s i b = s ! i # slice s (Suc i) b"
    by (simp add: slice_def Cons_nth_drop_Suc[symmetric])
  with Cons x show ?thesis by simp
qed

definition fixed_char :: "unicode_db \<Rightarrow> ustr \<Rightarrow> nat \<Rightarrow> nat" where
  "fixed_char db s j =
     (if iz_at db s j then 0x69 else if 0 < j \<and> iz_at db s (j - 1) then 0x73 else s ! j)"

lemma sub_join_iz:
  "\<not> (0 < i \<and> iz_at db s (i - 1)) \<longrightarrow>
     sub_join [0x69, 0x73] s i (re_spans (iz_pattern db) s i ma) = map (fixed_char db s) [i..<length s]"
proof (induction i ma rule: spans_induct[where r = "iz_pattern db" and s = s])
  case (past i ma)
  then show ?case by (simp add: re_spans_past)
next
  case (skip i ma)
  show ?case
  proof
    assume free: "\<not> (0 < i \<and> iz_at db s (i - 1))"
    from skip(2) have no: "\<not> iz_at db s i" by (simp add: first_match_iz split: if_splits)
    show "sub_join [0x69, 0x73] s i (re_spans (iz_pattern db) s i ma) = map (fixed_char db s) [i..<length s]"
    proof (cases "i = length s")
      case True
      with re_spans_None_step[OF skip(2)] have "re_spans (iz_pattern db) s i ma = []"
        by (simp add: re_spans_past)
      with True show ?thesis by simp
    next
      case False
      with skip(1) have lt: "i < length s" by simp
      have "sub_join [0x69, 0x73] s i (re_spans (iz_pattern db) s (Suc i) False)
              = s ! i # sub_join [0x69, 0x73] s (Suc i) (re_spans (iz_pattern db) s (Suc i) False)"
        using lt re_spans_hd_bounds[of "iz_pattern db" s "Suc i" False]
        by (intro sub_join_shift) auto
      moreover have "fixed_char db s i = s ! i" using free no by (auto simp: fixed_char_def)
      ultimately show ?thesis
        using skip(3) no lt by (simp add: re_spans_None_step[OF skip(2)] upt_conv_Cons)
    qed
  qed
next
  case (hit i ma e g)
  show ?case
  proof
    assume free: "\<not> (0 < i \<and> iz_at db s (i - 1))"
    from hit(2) have at: "iz_at db s i" and e: "e = i + 2" "g = None"
      by (auto simp: first_match_iz split: if_splits)
    from at have lt: "i + 1 < length s" by (simp add: iz_at_def)
    from iz_at_no_overlap[OF at] have no: "\<not> iz_at db s (Suc i)" .
    have "[i..<length s] = i # Suc i # [i + 2..<length s]"
      using lt by (simp add: upt_conv_Cons)
    moreover have "fixed_char db s i = 0x69" "fixed_char db s (Suc i) = 0x73"
      using at no by (simp_all add: fixed_char_def)
    ultimately show "sub_join [0x69, 0x73] s i (re_spans (iz_pattern db) s i ma) = map (fixed_char db s) [i..<length s]"
      using hit(5) no e by (simp add: re_spans_Some_step[OF hit(1) hit(2)] slice_def)
  qed
qed

lemma fix_iz_map: "fix_iz db s = map (fixed_char db s) [0..<length s]"
  using sub_join_iz[of 0 db s False] by (simp add: fix_iz_def re_sub_def ustr_of_is)

lemma length_fix_iz: "length (fix_iz db s) = length s"
  by (simp add: fix_iz_map)

lemma nth_fix_iz: "j < length s \<Longrightarrow> fix_iz db s ! j = fixed_char db s j"
  by (simp add: fix_iz_map)

text \<open>
  What the theorems below need of the character database beyond ASCII: a character that
  matches \<open>i\<close> or \<open>z\<close> without regard to case is a word character, and is neither a
  quotation mark nor whitespace.  In Unicode these characters are \<open>i\<close>, \<open>I\<close>, \<open>U+0130\<close>,
  \<open>U+0131\<close>, \<open>z\<close> and \<open>Z\<close>, all of them letters.
\<close>

definition iz_letters_ok :: "unicode_db \<Rightarrow> bool" where
  "iz_letters_ok db =
     (\<forall>c. lit_i db c \<or> lit_z db c \<longrightarrow> uni_isword db c \<and> \<not> is_quote c \<and> \<not> py_isspace c)"

lemma sample_db_ok: "iz_letters_ok sample_db"
  by (auto simp: iz_letters_ok_def lit_i_def lit_z_def uni_tolower_def uni_isword_def
      uni_isalnum_def sample_db_def ascii_upper_def ascii_letter_def ascii_lower_def
      is_quote_def py_isspace_def split: if_splits)

lemma lit_ascii [simp]:
  "lit_i db 0x69" "lit_i db 0x49" "lit_z db 0x7A" "lit_z db 0x5A"
  "\<not> lit_i db 0x73" "\<not> lit_z db 0x73" "\<not> lit_z db 0x69"
  by (simp_all add: lit_i_def lit_z_def uni_tolower_def ascii_upper_def)

lemma word_ascii [simp]:
  "uni_isword db 0x69" "uni_isword db 0x49" "uni_isword db 0x7A" "uni_isword db 0x5A" "uni_isword db 0x73"
  by (simp_all add: uni_isword_def uni_isalnum_def ascii_letter_def ascii_lower_def ascii_upper_def)

lemma misc_ascii [simp]:
  "\<not> is_quote 0x69" "\<not> is_quote 0x73" "\<not> py_isspace 0x69" "\<not> py_isspace 0x73"
  by (simp_all add: is_quote_def py_isspace_def)

lemma iz_at_lits: "iz_at db s i \<Longrightarrow> i + 1 < length s \<and> lit_i db (s ! i) \<and> lit_z db (s ! Suc i)"
  by (simp add: iz_at_def)

lemma fixed_char_class:
  assumes ok: "iz_letters_ok db" and k: "k < length t"
  shows "uni_isword db (fixed_char db t k) = uni_isword db (t ! k)"
    and "is_quote (fixed_char db t k) = is_quote (t ! k)"
    and "py_isspace (fixed_char db t k) = py_isspace (t ! k)"
proof -
  have a: "uni_isword db (t ! k) \<and> \<not> is_quote (t ! k) \<and> \<not> py_isspace (t ! k)" if "iz_at db t k"
    using iz_at_lits[OF that] ok by (auto simp: iz_letters_ok_def)
  have b: "uni_isword db (t ! k) \<and> \<not> is_quote (t ! k) \<and> \<not> py_isspace (t ! k)"
    if "0 < k" "iz_at db t (k - 1)"
    using iz_at_lits[OF that(2)] that(1) ok by (auto simp: iz_letters_ok_def)
  show "uni_isword db (fixed_char db t k) = uni_isword db (t ! k)"
    using a b by (auto simp: fixed_char_def)
  show "is_quote (fixed_char db t k) = is_quote (t ! k)"
    using a b by (auto simp: fixed_char_def)
  show "py_isspace (fixed_char db t k) = py_isspace (t ! k)"
    using a b by (auto simp: fixed_char_def)
qed

lemma count_whitespace_map:
  "count_whitespace xs = int (length (filter id (map py_isspace xs)))"
  by (induction xs) (auto simp: count_whitespace_def)

lemma isspace_fix_iz:
  assumes "iz_letters_ok db"
  shows "map py_isspace (fix_iz db t) = map py_isspace t"
  by (rule nth_equalityI) (simp_all add: length_fix_iz nth_fix_iz fixed_char_class(3)[OF assms])

lemma at_boundary_fix_iz:
  assumes "iz_letters_ok db" and "k \<le> length t"
  shows "at_boundary (uni_isword db) (fix_iz db t) k = at_boundary (uni_isword db) t k"
proof -
  have "t \<noteq> [] \<longleftrightarrow> fix_iz db t \<noteq> []"
    using length_fix_iz[of db t] by (metis length_0_conv)
  moreover have "0 < k \<and> k - 1 < length t \<Longrightarrow>
      uni_isword db (fix_iz db t ! (k - 1)) = uni_isword db (t ! (k - 1))"
    by (simp add: nth_fix_iz fixed_char_class(1)[OF assms(1)])
  moreover have "k < length t \<Longrightarrow> uni_isword db (fix_iz db t ! k) = uni_isword db (t ! k)"
    by (simp add: nth_fix_iz fixed_char_class(1)[OF assms(1)])
  ultimately show ?thesis
    using assms(2) unfolding at_boundary_def length_fix_iz
    by (cases "k < length t"; cases "0 < k") auto
qed

lemma re_spans_iz:
  "\<not> (0 < i \<and> iz_at db s (i - 1)) \<longrightarrow>
     re_spans (iz_pattern db) s i ma = map (\<lambda>b. (b, b + 2, None)) (filter (iz_at db s) [i..<length s])"
proof (induction i ma rule: spans_induct[where r = "iz_pattern db" and s = s])
  case (past i ma)
  then show ?case by (simp add: re_spans_past)
next
  case (skip i ma)
  from skip(2) have no: "\<not> iz_at db s i" by (simp add: first_match_iz split: if_splits)
  show ?case
  proof (cases "i = length s")
    case True
    with re_spans_None_step[OF skip(2)] show ?thesis by (simp add: re_spans_past)
  next
    case False
    with skip(1) have "i < length s" by simp
    with skip(3) no show ?thesis
      by (simp add: re_spans_None_step[OF skip(2)] upt_conv_Cons)
  qed
next
  case (hit i ma e g)
  from hit(2) have at: "iz_at db s i" and e: "e = i + 2" "g = None"
    by (auto simp: first_match_iz split: if_splits)
  from at have lt: "i + 1 < length s" by (simp add: iz_at_def)
  from iz_at_no_overlap[OF at] have no: "\<not> iz_at db s (Suc i)" .
  have "[i..<length s] = i # Suc i # [i + 2..<length s]"
    using lt by (simp add: upt_conv_Cons)
  with hit(5) no e at show ?case
    by (simp add: re_spans_Some_step[OF hit(1) hit(2)])
qed

text \<open>
  Claim C9.  The correction keeps the length of the text and changes it only at positions
  inside a replaced two-character match of the pattern; hence the whitespace count of the
  corrected text is that of the original (no character that matches \<open>i\<close> or \<open>z\<close> is
  whitespace).
\<close>

theorem fix_iz_local:
  "length (fix_iz db t) = length t
    \<and> (\<forall>j < length t. fix_iz db t ! j \<noteq> t ! j \<longrightarrow>
          (\<exists>b. (b, b + 2, None) \<in> set (re_spans (iz_pattern db) t 0 False) \<and> b \<le> j \<and> j < b + 2))
    \<and> (iz_letters_ok db \<longrightarrow> count_whitespace (fix_iz db t) = count_whitespace t)"
proof (intro conjI allI impI)
  show "length (fix_iz db t) = length t" by (rule length_fix_iz)
next
  fix j assume j: "j < length t" and d: "fix_iz db t ! j \<noteq> t ! j"
  from re_spans_iz[of 0 db t False]
  have sp: "set (re_spans (iz_pattern db) t 0 False) = (\<lambda>b. (b, b + 2, None)) ` {b. b < length t \<and> iz_at db t b}"
    by auto
  from d j have "iz_at db t j \<or> (0 < j \<and> iz_at db t (j - 1))"
    by (auto simp: nth_fix_iz fixed_char_def split: if_splits)
  then show "\<exists>b. (b, b + 2, None) \<in> set (re_spans (iz_pattern db) t 0 False) \<and> b \<le> j \<and> j < b + 2"
  proof
    assume "iz_at db t j"
    with j sp show ?thesis by (intro exI[of _ j]) auto
  next
    assume a: "0 < j \<and> iz_at db t (j - 1)"
    with j sp show ?thesis by (intro exI[of _ "j - 1"]) auto
  qed
next
  assume ok: "iz_letters_ok db"
  show "count_whitespace (fix_iz db t) = count_whitespace t"
    by (simp add: count_whitespace_map isspace_fix_iz[OF ok])
qed

theorem fix_iz_local_witness:
  "iz_letters_ok sample_db
   \<and> fix_iz sample_db (ustr_of ''a iz b'') = ustr_of ''a is b''
   \<and> count_whitespace (fix_iz sample_db (ustr_of ''a iz b'')) = count_whitespace (ustr_of ''a iz b'')
   \<and> count_whitespace (ustr_of ''a iz b'') = 2"
proof -
  have e: "fix_iz sample_db (ustr_of ''a iz b'') = ustr_of ''a is b''" by code_simp
  have c: "count_whitespace (ustr_of ''a iz b'') = 2"
    by (simp add: ustr_of_def count_whitespace_def py_isspace_def)
  from fix_iz_local[of sample_db "ustr_of ''a iz b''"] sample_db_ok
  have "count_whitespace (fix_iz sample_db (ustr_of ''a iz b'')) = count_whitespace (ustr_of ''a iz b'')"
    by blast
  with e c sample_db_ok show ?thesis by simp
qed

text \<open>The corrected text has no match of the pattern left.\<close>

lemma no_iz_after_fix:
  assumes ok: "iz_letters_ok db"
  shows "\<not> iz_at db (fix_iz db t) j"
proof
  let ?u = "fix_iz db t"
  assume at: "iz_at db ?u j"
  then have j: "j + 1 < length t" and li: "lit_i db (?u ! j)" and lz: "lit_z db (?u ! (j + 1))"
    and ql: "\<not> (0 < j \<and> is_quote (?u ! (j - 1)))"
    and b1: "at_boundary (uni_isword db) ?u j" and b2: "at_boundary (uni_isword db) ?u (j + 2)"
    and qr: "\<not> (j + 2 < length t \<and> is_quote (?u ! (j + 2)))"
    by (simp_all add: iz_at_def length_fix_iz)
  from lz j have n1: "\<not> iz_at db t (j + 1)" and n0: "\<not> iz_at db t j" and z: "lit_z db (t ! (j + 1))"
    by (auto simp: nth_fix_iz fixed_char_def split: if_splits)
  from li j n0 have i: "lit_i db (t ! j)"
    by (auto simp: nth_fix_iz fixed_char_def split: if_splits)
  from ql j have "\<not> (0 < j \<and> is_quote (t ! (j - 1)))"
    by (auto simp: nth_fix_iz fixed_char_class(2)[OF ok])
  moreover from qr j have "\<not> (j + 2 < length t \<and> is_quote (t ! (j + 2)))"
    by (auto simp: nth_fix_iz fixed_char_class(2)[OF ok])
  moreover from b1 j have "at_boundary (uni_isword db) t j"
    by (simp add: at_boundary_fix_iz[OF ok])
  moreover from b2 j have "at_boundary (uni_isword db) t (j + 2)"
    by (simp add: at_boundary_fix_iz[OF ok])
  ultimately have "iz_at db t j" using j i z by (simp add: iz_at_def)
  with n0 show False by simp
qed

text \<open>
  Claim C7.  The correction is idempotent: correcting a corrected text changes nothing.
\<close>

theorem fix_iz_idempotent:
  assumes "iz_letters_ok db"
  shows "fix_iz db (fix_iz db t) = fix_iz db t"
proof (rule nth_equalityI)
  show "length (fix_iz db (fix_iz db t)) = length (fix_iz db t)" by (simp add: length_fix_iz)
next
  fix j assume "j < length (fix_iz db (fix_iz db t))"
  then have j: "j < length (fix_iz db t)" by (simp add: length_fix_iz)
  then show "fix_iz db (fix_iz db t) ! j = fix_iz db t ! j"
    by (simp add: nth_fix_iz[OF j] fixed_char_def no_iz_after_fix[OF assms])
qed

theorem fix_iz_idempotent_witness:
  "iz_letters_ok sample_db
   \<and> fix_iz sample_db (ustr_of ''it iZ here'') = ustr_of ''it is here''
   \<and> fix_iz sample_db (ustr_of ''it is here'') = ustr_of ''it is here''"
proof -
  have e: "fix_iz sample_db (ustr_of ''it iZ here'') = ustr_of ''it is here''"
    by code_simp
  from fix_iz_idempotent[OF sample_db_ok, of "ustr_of ''it iZ here''"]
  have "fix_iz sample_db (ustr_of ''it is here'') = ustr_of ''it is here''"
    unfolding e .
  with e sample_db_ok show ?thesis by simp
qed

section \<open>Standalone occurrences and quotation marks\<close>

text \<open>
  In the words of the specification: an occurrence of the word in one of its four ASCII
  casings is standalone when no word character stands directly before or after it, and a
  quotation mark is adjacent when it stands directly before or after it.
\<close>

definition standalone_iz :: "unicode_db \<Rightarrow> ustr \<Rightarrow> nat \<Rightarrow> bool" where
  "standalone_iz db t p =
     (p + 1 < length t \<and> (t ! p = 0x69 \<or> t ! p = 0x49) \<and> (t ! (p + 1) = 0x7A \<or> t ! (p + 1) = 0x5A)
      \<and> (p = 0 \<or> \<not> uni_isword db (t ! (p - 1)))
      \<and> (p + 2 = length t \<or> \<not> uni_isword db (t ! (p + 2))))"

definition quote_adjacent :: "ustr \<Rightarrow> nat \<Rightarrow> bool" where
  "quote_adjacent t p =
     ((0 < p \<and> is_quote (t ! (p - 1))) \<or> (p + 2 < length t \<and> is_quote (t ! (p + 2))))"

lemma standalone_iz_at:
  assumes "standalone_iz db t p"
  shows "iz_at db t p \<longleftrightarrow> \<not> quote_adjacent t p"
proof -
  from assms have p: "p + 1 < length t" and i: "lit_i db (t ! p)" and z: "lit_z db (t ! (p + 1))"
    and wi: "uni_isword db (t ! p)" and wz: "uni_isword db (t ! (p + 1))"
    by (auto simp: standalone_iz_def)
  from assms p wi have "at_boundary (uni_isword db) t p"
    by (auto simp: standalone_iz_def at_boundary_def)
  moreover from assms p wz have "at_boundary (uni_isword db) t (p + 2)"
    by (auto simp: standalone_iz_def at_boundary_def)
  ultimately show ?thesis using p i z by (auto simp: iz_at_def quote_adjacent_def)
qed

lemma standalone_unmatched:
  assumes "standalone_iz db t p" and "\<not> iz_at db t p"
  shows "fixed_char db t p = t ! p \<and> fixed_char db t (p + 1) = t ! (p + 1)"
proof -
  from assms(1) have i: "lit_i db (t ! p)" and z: "lit_z db (t ! (p + 1))"
    by (auto simp: standalone_iz_def)
  have "\<not> (0 < p \<and> iz_at db t (p - 1))"
    using iz_at_lits[of db t "p - 1"] i lit_i_not_z by auto
  moreover have "\<not> iz_at db t (p + 1)"
    using iz_at_lits[of db t "p + 1"] z lit_i_not_z by auto
  ultimately show ?thesis using assms(2) by (auto simp: fixed_char_def)
qed

lemma slice_two: "p + 1 < length xs \<Longrightarrow> slice xs p (p + 2) = [xs ! p, xs ! (p + 1)]"
  by (simp add: slice_def take_Suc_conv_app_nth numeral_2_eq_2)

text \<open>
  Claim C1.  A standalone occurrence of the word, in any of its four casings, is replaced
  by \<open>is\<close> exactly when no quotation mark is adjacent to it, and is left as it stands
  otherwise; the quoted occurrence between curly quotes stays, the occurrence separated
  from straight quotes by spaces is corrected.
\<close>

theorem fix_iz_standalone:
  "(standalone_iz db t p \<longrightarrow>
      (slice (fix_iz db t) p (p + 2) = ustr_of ''is'' \<longleftrightarrow> \<not> quote_adjacent t p)
      \<and> (quote_adjacent t p \<longrightarrow> slice (fix_iz db t) p (p + 2) = slice t p (p + 2)))
   \<and> fix_iz db [0x201C, 0x69, 0x5A, 0x201D] = [0x201C, 0x69, 0x5A, 0x201D]
   \<and> fix_iz db [0x22, 0x20, 0x69, 0x7A, 0x20, 0x22] = [0x22, 0x20, 0x69, 0x73, 0x20, 0x22]"
proof (intro conjI impI)
  assume s: "standalone_iz db t p"
  then have p: "p + 1 < length t" and z: "t ! (p + 1) = 0x7A \<or> t ! (p + 1) = 0x5A"
    by (auto simp: standalone_iz_def)
  have out: "slice (fix_iz db t) p (p + 2) = [fixed_char db t p, fixed_char db t (p + 1)]"
    using p slice_two[of p "fix_iz db t"] by (simp add: length_fix_iz nth_fix_iz)
  show "slice (fix_iz db t) p (p + 2) = ustr_of ''is'' \<longleftrightarrow> \<not> quote_adjacent t p"
  proof (cases "iz_at db t p")
    case True
    then have "fixed_char db t p = 0x69" "fixed_char db t (p + 1) = 0x73"
      using iz_at_no_overlap[OF True] by (simp_all add: fixed_char_def)
    with True standalone_iz_at[OF s] out show ?thesis by (simp add: ustr_of_is)
  next
    case False
    from standalone_unmatched[OF s False] z out
    have "slice (fix_iz db t) p (p + 2) \<noteq> ustr_of ''is''" by (auto simp: ustr_of_is)
    with False standalone_iz_at[OF s] show ?thesis by simp
  qed
  show "slice (fix_iz db t) p (p + 2) = slice t p (p + 2)" if "quote_adjacent t p"
  proof -
    from that standalone_iz_at[OF s] have "\<not> iz_at db t p" by simp
    from standalone_unmatched[OF s this] out p slice_two[of p t] show ?thesis by simp
  qed
next
  have "\<not> iz_at db [0x201C, 0x69, 0x5A, 0x201D] 0"
    "\<not> iz_at db [0x201C, 0x69, 0x5A, 0x201D] (Suc 0)"
    "\<not> iz_at db [0x201C, 0x69, 0x5A, 0x201D] (Suc (Suc 0))"
    "\<not> iz_at db [0x201C, 0x69, 0x5A, 0x201D] (Suc (Suc (Suc 0)))"
    by (simp_all add: iz_at_def is_quote_def lit_i_def lit_z_def uni_tolower_def ascii_upper_def)
  then show "fix_iz db [0x201C, 0x69, 0x5A, 0x201D] = [0x201C, 0x69, 0x5A, 0x201D]"
    by (simp add: fix_iz_map fixed_char_def)
next
  show "fix_iz db [0x22, 0x20, 0x69, 0x7A, 0x20, 0x22] = [0x22, 0x20, 0x69, 0x73, 0x20, 0x22]"
    by code_simp
qed

theorem fix_iz_standalone_witness:
  "standalone_iz sample_db (ustr_of ''it iZ here'') 3
   \<and> \<not> quote_adjacent (ustr_of ''it iZ here'') 3
   \<and> slice (fix_iz sample_db (ustr_of ''it iZ here'')) 3 5 = ustr_of ''is''"
proof -
  have s: "standalone_iz sample_db (ustr_of ''it iZ here'') 3"
    by (simp add: standalone_iz_def ustr_of_def uni_isword_def uni_isalnum_def ascii_letter_def
        ascii_lower_def ascii_upper_def ascii_digit_def)
  have q: "\<not> quote_adjacent (ustr_of ''it iZ here'') 3"
    by (simp add: quote_adjacent_def ustr_of_def is_quote_def)
  from fix_iz_standalone[of sample_db "ustr_of ''it iZ here''" 3] s q
  show ?thesis by simp
qed

section \<open>The sentence segmenter\<close>

lemma rmatch_star_class:
  "rmatch (Star (In p)) s (i, g) =
     map (\<lambda>k. (k, g)) (rev [i..<Suc (i + length (takeWhile p (drop i s)))])"
proof (induction "length s - i" arbitrary: i)
  case 0
  then have "drop i s = []" by simp
  moreover have "rmatch (In p) s (i, g) = []" using 0 by simp
  ultimately show ?case by (subst rmatch.simps(3)) simp
next
  case (Suc n)
  then have lt: "i < length s" by simp
  show ?case
  proof (cases "p (s ! i)")
    case True
    from Suc(2) have "n = length s - Suc i" by simp
    from Suc(1)[OF this]
    have ih: "rmatch (Star (In p)) s (Suc i, g) =
        map (\<lambda>k. (k, g)) (rev [Suc i..<Suc (Suc i + length (takeWhile p (drop (Suc i) s)))])" .
    have tw: "takeWhile p (drop i s) = s ! i # takeWhile p (drop (Suc i) s)"
      using lt True by (simp add: Cons_nth_drop_Suc[symmetric])
    have "rmatch (Star (In p)) s (i, g) = rmatch (Star (In p)) s (Suc i, g) @ [(i, g)]"
      using lt True by (subst rmatch.simps(3)) simp
    also have "\<dots> = map (\<lambda>k. (k, g)) (rev [i..<Suc (i + length (takeWhile p (drop i s)))])"
      unfolding ih tw using upt_conv_Cons[of i "Suc (Suc i + length (takeWhile p (drop (Suc i) s)))"]
      by (simp del: upt_Suc)
    finally show ?thesis .
  next
    case False
    then have "takeWhile p (drop i s) = []"
      using lt by (simp add: Cons_nth_drop_Suc[symmetric])
    moreover have "rmatch (In p) s (i, g) = []" using False by simp
    ultimately show ?thesis by (subst rmatch.simps(3)) simp
  qed
qed

definition delim_end :: "ustr \<Rightarrow> nat \<Rightarrow> nat" where
  "delim_end s i = Suc i + length (takeWhile py_isspace (drop (Suc i) s))"

lemma delim_end_bounds: "i < length s \<Longrightarrow> i < delim_end s i \<and> delim_end s i \<le> length s"
proof -
  assume "i < length s"
  moreover have "length (takeWhile py_isspace (drop (Suc i) s)) \<le> length (drop (Suc i) s)"
    by (rule length_takeWhile_le)
  ultimately show ?thesis by (simp add: delim_end_def)
qed

lemma first_match_split:
  "first_match split_pattern s i ma =
     (if i < length s \<and> is_delim (s ! i) then Some (delim_end s i, Some (i, delim_end s i)) else None)"
  by (simp add: first_match_def split_pattern_def rmatch_star_class delim_end_def)

lemma slice_delim:
  "i < length s \<Longrightarrow> slice s i (delim_end s i) = s ! i # takeWhile py_isspace (drop (Suc i) s)"
proof -
  assume lt: "i < length s"
  have "take (length (takeWhile py_isspace (drop (Suc i) s))) (drop (Suc i) s)
          = takeWhile py_isspace (drop (Suc i) s)"
    by (metis append_eq_conv_conj takeWhile_dropWhile_id)
  with lt show ?thesis
    by (simp add: slice_def delim_end_def Cons_nth_drop_Suc[symmetric])
qed

lemma split_join_shift:
  assumes "i < length s" and "\<And>b e g ms. X = (b, e, g) # ms \<Longrightarrow> i < b"
  shows "split_join s i X = (s ! i # hd (split_join s (Suc i) X)) # tl (split_join s (Suc i) X)"
proof (cases X)
  case Nil
  then show ?thesis using assms(1) by (simp add: Cons_nth_drop_Suc)
next
  case (Cons x ms)
  obtain b e g where x: "x = (b, e, g)" by (cases x) auto
  from assms(2)[of b e g ms] Cons x have "i < b" by simp
  then have "b - i = Suc (b - Suc i)" by arith
  with assms(1) have "slice s i b = s ! i # slice s (Suc i) b"
    by (simp add: slice_def Cons_nth_drop_Suc[symmetric])
  with Cons x show ?thesis by simp
qed

lemma split_join_not_Nil: "split_join s i X \<noteq> []"
  by (cases X) auto

lemma split_spans_step:
  assumes "i < length s" and "first_match r s i ma = None"
  shows "split_join s i (re_spans r s i ma) =
     (s ! i # hd (split_join s (Suc i) (re_spans r s (Suc i) False)))
       # tl (split_join s (Suc i) (re_spans r s (Suc i) False))"
  unfolding re_spans_None_step[OF assms(2)]
  using assms(1) re_spans_hd_bounds[of r s "Suc i" False]
  by (intro split_join_shift) auto

lemma slice_slice_drop:
  "i \<le> e \<Longrightarrow> e \<le> length s \<Longrightarrow> slice s i e @ drop e s = drop i s"
proof -
  assume "i \<le> e" "e \<le> length s"
  then have "drop e s = drop (e - i) (drop i s)" by simp
  then show ?thesis unfolding slice_def by (metis append_take_drop_id)
qed

lemma concat_split_spans:
  "i \<le> length s \<longrightarrow> concat (split_join s i (re_spans split_pattern s i ma)) = drop i s"
proof (induction i ma rule: spans_induct[where r = split_pattern and s = s])
  case (past i ma)
  then show ?case by simp
next
  case (skip i ma)
  show ?case
  proof (cases "i = length s")
    case True
    with re_spans_None_step[OF skip(2)] have "re_spans split_pattern s i ma = []"
      by (simp add: re_spans_past)
    then show ?thesis by simp
  next
    case False
    with skip(1) have lt: "i < length s" by simp
    let ?P = "split_join s (Suc i) (re_spans split_pattern s (Suc i) False)"
    have "concat (split_join s i (re_spans split_pattern s i ma)) = s ! i # concat (hd ?P # tl ?P)"
      unfolding split_spans_step[OF lt skip(2)] by simp
    also have "hd ?P # tl ?P = ?P" using split_join_not_Nil[of s "Suc i"] by simp
    finally show ?thesis using skip(3) lt by (simp add: Cons_nth_drop_Suc)
  qed
next
  case (hit i ma e g)
  from hit(2) have g: "g = Some (i, e)"
    by (auto simp: first_match_split split: if_splits)
  from hit(5) hit(4) have "concat (split_join s e (re_spans split_pattern s e (e = i))) = drop e s"
    by simp
  then show ?case
    using slice_slice_drop[OF hit(3) hit(4)]
    by (simp add: re_spans_Some_step[OF hit(1) hit(2)] g group_text_def slice_def[of s i i])
qed

text \<open>
  Claim C2.  Concatenating the elements of \<open>split_sentences t\<close> in order gives \<open>t\<close> back.
\<close>

theorem split_sentences_lossless: "concat (split_sentences t) = t"
  using concat_split_spans[of 0 t False] by (simp add: split_sentences_def re_split_def)

theorem split_sentences_lossless_witness:
  "concat (split_sentences (ustr_of ''a. b!  c'')) = ustr_of ''a. b!  c''"
  by (rule split_sentences_lossless)

text \<open>
  The shape of the result of the split: segments without a delimiter character alternate
  with delimiters, each one delimiter character followed by whitespace only, and the list
  ends with a segment.
\<close>

fun parts_ok :: "ustr list \<Rightarrow> bool" where
  "parts_ok [] = False"
| "parts_ok [seg] = (\<forall>c \<in> set seg. \<not> is_delim c)"
| "parts_ok (seg # d # rest) =
     ((\<forall>c \<in> set seg. \<not> is_delim c)
      \<and> (\<exists>c ws. d = c # ws \<and> is_delim c \<and> (\<forall>w \<in> set ws. py_isspace w))
      \<and> parts_ok rest)"

lemma parts_ok_push:
  "ps \<noteq> [] \<Longrightarrow> parts_ok ((c # hd ps) # tl ps) = (\<not> is_delim c \<and> parts_ok ps)"
proof (cases ps rule: parts_ok.cases)
  case 1
  assume "ps \<noteq> []"
  with 1 show ?thesis by simp
next
  case (2 seg)
  then show ?thesis by auto
next
  case (3 seg d rest)
  then show ?thesis by auto
qed

lemma parts_ok_split_spans:
  "i \<le> length s \<longrightarrow> parts_ok (split_join s i (re_spans split_pattern s i ma))"
proof (induction i ma rule: spans_induct[where r = split_pattern and s = s])
  case (past i ma)
  then show ?case by simp
next
  case (skip i ma)
  show ?case
  proof (cases "i = length s")
    case True
    with re_spans_None_step[OF skip(2)] have "re_spans split_pattern s i ma = []"
      by (simp add: re_spans_past)
    with True show ?thesis by simp
  next
    case False
    with skip(1) have lt: "i < length s" by simp
    from skip(2) lt have nd: "\<not> is_delim (s ! i)"
      by (simp add: first_match_split split: if_splits)
    from skip(3) lt nd show ?thesis
      unfolding split_spans_step[OF lt skip(2)]
      by (simp add: parts_ok_push[OF split_join_not_Nil])
  qed
next
  case (hit i ma e g)
  from hit(2) have lt: "i < length s" and d: "is_delim (s ! i)"
    and e: "e = delim_end s i" and g: "g = Some (i, e)"
    by (auto simp: first_match_split split: if_splits)
  have "\<forall>w \<in> set (takeWhile py_isspace (drop (Suc i) s)). py_isspace w"
    by (auto dest: set_takeWhileD)
  with hit(5) hit(4) d show ?case
    by (simp add: re_spans_Some_step[OF hit(1) hit(2)] g group_text_def slice_def[of s i i]
        e[symmetric] slice_delim[OF lt, unfolded e[symmetric]])
qed

lemma parts_ok_nth:
  "parts_ok ps \<Longrightarrow> odd (length ps) \<and>
     (\<forall>k < length ps.
        (even k \<longrightarrow> (\<forall>c \<in> set (ps ! k). \<not> is_delim c))
        \<and> (odd k \<longrightarrow> (\<exists>c ws. ps ! k = c # ws \<and> is_delim c \<and> (\<forall>w \<in> set ws. py_isspace w))))"
proof (induction ps rule: parts_ok.induct)
  case 1
  then show ?case by simp
next
  case (2 seg)
  then show ?case by simp
next
  case (3 seg d rest)
  from "3.prems" have seg: "\<forall>c \<in> set seg. \<not> is_delim c"
    and d: "\<exists>c ws. d = c # ws \<and> is_delim c \<and> (\<forall>w \<in> set ws. py_isspace w)"
    and rest: "parts_ok rest"
    by auto
  from "3.IH"[OF rest] have len: "odd (length rest)"
    and ih: "\<And>k. k < length rest \<Longrightarrow>
        (even k \<longrightarrow> (\<forall>c \<in> set (rest ! k). \<not> is_delim c))
        \<and> (odd k \<longrightarrow> (\<exists>c ws. rest ! k = c # ws \<and> is_delim c \<and> (\<forall>w \<in> set ws. py_isspace w)))"
    by auto
  show ?case
  proof (intro conjI allI impI)
    show "odd (length (seg # d # rest))" using len by simp
  next
    fix k assume k: "k < length (seg # d # rest)" and ev: "even k"
    show "\<forall>c \<in> set ((seg # d # rest) ! k). \<not> is_delim c"
    proof (cases k)
      case 0
      with seg show ?thesis by simp
    next
      case (Suc m)
      with ev obtain j where "k = Suc (Suc j)" by (cases m) auto
      with k ev ih[of j] show ?thesis by simp
    qed
  next
    fix k assume k: "k < length (seg # d # rest)" and od: "odd k"
    show "\<exists>c ws. (seg # d # rest) ! k = c # ws \<and> is_delim c \<and> (\<forall>w \<in> set ws. py_isspace w)"
    proof (cases k)
      case 0
      with od show ?thesis by simp
    next
      case (Suc m)
      show ?thesis
      proof (cases m)
        case 0
        with Suc d show ?thesis by simp
      next
        case (Suc j)
        with \<open>k = Suc m\<close> k od ih[of j] show ?thesis by simp
      qed
    qed
  qed
qed

text \<open>
  Claim C10.  The result of \<open>split_sentences\<close> has odd length; its elements at even
  indices hold none of the delimiter characters; each element at an odd index is one
  delimiter character followed by whitespace characters only.
\<close>

theorem split_sentences_shape:
  "odd (length (split_sentences t))
   \<and> (\<forall>k < length (split_sentences t).
        (even k \<longrightarrow> (\<forall>c \<in> set (split_sentences t ! k). \<not> is_delim c))
        \<and> (odd k \<longrightarrow> (\<exists>c ws. split_sentences t ! k = c # ws \<and> is_delim c
                          \<and> (\<forall>w \<in> set ws. py_isspace w))))"
proof -
  from parts_ok_split_spans[of 0 t False] have "parts_ok (split_sentences t)"
    by (simp add: split_sentences_def re_split_def)
  then show ?thesis by (rule parts_ok_nth)
qed

theorem split_sentences_shape_witness:
  "split_sentences (ustr_of ''a. b!  c'') = [[97], [46, 32], [98], [33, 32, 32], [99]]
   \<and> odd (length (split_sentences (ustr_of ''a. b!  c'')))"
proof -
  have "split_sentences (ustr_of ''a. b!  c'') = [[97], [46, 32], [98], [33, 32, 32], [99]]"
    by code_simp
  with split_sentences_shape[of "ustr_of ''a. b!  c''"] show ?thesis by simp
qed

section \<open>The sentence-case normalizer\<close>

lemma re_search_from_first:
  "re_search_from r s i ma = Some (b, m) \<Longrightarrow>
     i \<le> b \<and> b \<le> length s \<and> first_match r s b (ma \<and> b = i) = Some m
     \<and> (\<forall>k. i \<le> k \<and> k < b \<longrightarrow> first_match r s k (ma \<and> k = i) = None)"
proof (induction r s i ma rule: re_search_from.induct)
  case (1 r s i ma)
  from "1.prems" have le: "\<not> length s < i"
    by (subst (asm) re_search_from.simps) (auto split: if_splits)
  show ?case
  proof (cases "first_match r s i ma")
    case None
    with "1.prems" le have rec: "re_search_from r s (Suc i) False = Some (b, m)"
      by (subst (asm) re_search_from.simps) simp
    from "1.IH"[OF le None rec]
    have ih: "Suc i \<le> b" "b \<le> length s" "first_match r s b False = Some m"
      "\<And>k. Suc i \<le> k \<Longrightarrow> k < b \<Longrightarrow> first_match r s k False = None"
      by auto
    have "first_match r s k (ma \<and> k = i) = None" if "i \<le> k" "k < b" for k
    proof (cases "k = i")
      case True
      with None show ?thesis by simp
    next
      case False
      with that ih(4)[of k] show ?thesis by simp
    qed
    with ih show ?thesis by auto
  next
    case (Some x)
    with "1.prems" le have "b = i" "m = x"
      by (subst (asm) re_search_from.simps, simp)+
    with Some le show ?thesis by auto
  qed
qed

lemma re_search_from_none:
  "re_search_from r s i ma = None \<Longrightarrow>
     (\<forall>k. i \<le> k \<and> k \<le> length s \<longrightarrow> first_match r s k (ma \<and> k = i) = None)"
proof (induction r s i ma rule: re_search_from.induct)
  case (1 r s i ma)
  show ?case
  proof (cases "length s < i")
    case True
    then show ?thesis by auto
  next
    case False
    with "1.prems" have none: "first_match r s i ma = None"
      by (subst (asm) re_search_from.simps) (auto split: option.splits)
    with "1.prems" False have rec: "re_search_from r s (Suc i) False = None"
      by (subst (asm) re_search_from.simps) simp
    from "1.IH"[OF False none rec]
    have ih: "\<And>k. Suc i \<le> k \<Longrightarrow> k \<le> length s \<Longrightarrow> first_match r s k False = None"
      by auto
    have "first_match r s k (ma \<and> k = i) = None" if "i \<le> k" "k \<le> length s" for k
    proof (cases "k = i")
      case True
      with none show ?thesis by simp
    next
      case False
      with that ih[of k] show ?thesis by simp
    qed
    then show ?thesis by auto
  qed
qed

lemma first_match_class:
  "first_match (In p) s i ma = (if i < length s \<and> p (s ! i) then Some (Suc i, None) else None)"
  by (simp add: first_match_def)

lemma re_search_class_Some:
  assumes "re_search (In p) s = Some (i, m)"
  shows "i < length s \<and> p (s ! i) \<and> (\<forall>k < i. \<not> p (s ! k))"
proof -
  from re_search_from_first[OF assms[unfolded re_search_def]]
  have a: "first_match (In p) s i False = Some m"
    and b: "\<And>k. k < i \<Longrightarrow> first_match (In p) s k False = None" and c: "i \<le> length s"
    by auto
  from a have "i < length s \<and> p (s ! i)" by (simp add: first_match_class split: if_splits)
  moreover have "\<not> p (s ! k)" if "k < i" for k
    using b[OF that] that c by (simp add: first_match_class split: if_splits)
  ultimately show ?thesis by simp
qed

lemma re_search_class_None:
  assumes "re_search (In p) s = None"
  shows "\<forall>k < length s. \<not> p (s ! k)"
  using re_search_from_none[OF assms[unfolded re_search_def]]
  by (auto simp: first_match_class split: if_splits)

lemma py_index_nat: "i < length xs \<Longrightarrow> py_index xs (int i) = Inr (xs ! i)"
  by (simp add: py_index_def Let_def)

lemma str_upper_ascii_letter:
  "ascii_letter c \<Longrightarrow> str_upper db [c] = [if ascii_lower c then c - 32 else c]"
  by (auto simp: str_upper_def to_upper_full_def ascii_letter_def ascii_lower_def ascii_upper_def)

lemma sentence_case_Some:
  assumes "re_search (In ascii_letter) (str_lower db seg) = Some (i, m)"
  shows "sentence_case db seg =
     Inr ((str_lower db seg)[i := (if ascii_lower (str_lower db seg ! i) then str_lower db seg ! i - 32
                                   else str_lower db seg ! i)])"
proof -
  from re_search_class_Some[OF assms]
  have i: "i < length (str_lower db seg)" and l: "ascii_letter (str_lower db seg ! i)" by auto
  show ?thesis
    using assms i by (simp add: sentence_case_def Let_def py_index_nat str_upper_ascii_letter[OF l] upd_conv_take_nth_drop)
qed

lemma sentence_case_None:
  assumes "re_search (In ascii_letter) (str_lower db seg) = None"
  shows "sentence_case db seg = Inr (str_lower db seg)"
  using assms by (simp add: sentence_case_def)

lemma sentence_case_total: "\<exists>out. sentence_case db seg = Inr out"
proof (cases "re_search (In ascii_letter) (str_lower db seg)")
  case None
  then show ?thesis by (simp add: sentence_case_None)
next
  case (Some x)
  then show ?thesis by (cases x) (simp add: sentence_case_Some)
qed

lemma normalize_loop_eq:
  "normalize_loop db i ps out =
     Inr (out @ map (\<lambda>(k, p). if even k then projr (sentence_case db p) else p) (enumerate i ps))"
proof (induction ps arbitrary: i out)
  case Nil
  then show ?case by simp
next
  case (Cons p ps)
  from sentence_case_total[of db p] obtain c where c: "sentence_case db p = Inr c" by blast
  show ?case using Cons[of "Suc i"] c by (simp add: even_iff_mod_2_eq_zero)
qed

text \<open>
  The sentence-case rule in the words of the specification: lowercase every letter, then
  uppercase the first alphabetic character in place.  The rule is written for a given
  notion of letter, so that it can be read with the letters of Unicode and with the ASCII
  letters.
\<close>

definition spec_sentence_case :: "(nat \<Rightarrow> bool) \<Rightarrow> unicode_db \<Rightarrow> ustr \<Rightarrow> ustr" where
  "spec_sentence_case letter db seg =
     (let lower = concat (map (\<lambda>c. if letter c then to_lower_full db c else [c]) seg)
      in case dropWhile (\<lambda>c. \<not> letter c) lower of
           [] \<Rightarrow> lower
         | c # rest \<Rightarrow> takeWhile (\<lambda>c. \<not> letter c) lower @ to_upper_full db c @ rest)"

text \<open>
  Claim C3 as stated fails on a segment that starts with a letter outside ASCII: for the
  segment of the two letters \<open>U+00C9\<close> (capital E with acute) and \<open>A\<close> the program returns
  \<open>U+00E9\<close> (small e with acute) followed by \<open>A\<close>.  With the letters of Unicode the rule
  gives the capital E with acute followed by \<open>a\<close>; with the ASCII letters alone it gives
  the segment back unchanged.
\<close>

theorem sentence_case_counterexample:
  "sentence_case sample_db [0xC9, 0x41] = Inr [0xE9, 0x41]
   \<and> spec_sentence_case (uni_isalpha sample_db) sample_db [0xC9, 0x41] = [0xC9, 0x61]
   \<and> spec_sentence_case ascii_letter sample_db [0xC9, 0x41] = [0xC9, 0x41]"
  by code_simp

text \<open>
  Claim C3, amended.  \<open>sentence_case\<close> returns the segment lowercased by \<open>str.lower\<close> (which
  lowercases every cased character, also outside ASCII) with its first ASCII letter
  uppercased in place; a segment that has no ASCII letter after lowercasing is returned
  lowercased; \<open>normalize_case\<close> applies this to the elements at even indices of the split
  and passes the delimiters, at odd indices, through unmodified.
\<close>

theorem sentence_case_first_ascii_letter:
  "(\<exists>out. sentence_case db seg = Inr out \<and> length out = length (str_lower db seg)
      \<and> (\<forall>j < length out. out ! j =
            (if ascii_letter (str_lower db seg ! j) \<and> (\<forall>k < j. \<not> ascii_letter (str_lower db seg ! k))
             then (if ascii_lower (str_lower db seg ! j) then str_lower db seg ! j - 32
                   else str_lower db seg ! j)
             else str_lower db seg ! j)))
   \<and> ((\<forall>k < length (str_lower db seg). \<not> ascii_letter (str_lower db seg ! k))
        \<longrightarrow> sentence_case db seg = Inr (str_lower db seg))
   \<and> (\<exists>outs. normalize_case db t = Inr (concat outs) \<and> length outs = length (split_sentences t)
        \<and> (\<forall>k < length outs.
              (odd k \<longrightarrow> outs ! k = split_sentences t ! k)
              \<and> (even k \<longrightarrow> sentence_case db (split_sentences t ! k) = Inr (outs ! k))))"
proof (intro conjI)
  let ?l = "str_lower db seg"
  show "\<exists>out. sentence_case db seg = Inr out \<and> length out = length ?l
      \<and> (\<forall>j < length out. out ! j =
            (if ascii_letter (?l ! j) \<and> (\<forall>k < j. \<not> ascii_letter (?l ! k))
             then (if ascii_lower (?l ! j) then ?l ! j - 32 else ?l ! j)
             else ?l ! j))"
  proof (cases "re_search (In ascii_letter) ?l")
    case None
    from re_search_class_None[OF None] sentence_case_None[OF None]
    show ?thesis by auto
  next
    case (Some x)
    obtain i m where x: "x = (i, m)" by (cases x) auto
    from re_search_class_Some[OF Some[unfolded x]]
    have i: "i < length ?l" and l: "ascii_letter (?l ! i)" and f: "\<And>k. k < i \<Longrightarrow> \<not> ascii_letter (?l ! k)"
      by auto
    let ?out = "?l[i := (if ascii_lower (?l ! i) then ?l ! i - 32 else ?l ! i)]"
    have "?out ! j = (if ascii_letter (?l ! j) \<and> (\<forall>k < j. \<not> ascii_letter (?l ! k))
             then (if ascii_lower (?l ! j) then ?l ! j - 32 else ?l ! j)
             else ?l ! j)" if "j < length ?l" for j
    proof (cases "j = i")
      case True
      with i l f show ?thesis by simp
    next
      case False
      then consider "j < i" | "i < j" by arith
      then show ?thesis
      proof cases
        case 1
        with f[of j] False show ?thesis by simp
      next
        case 2
        with l have "\<not> (\<forall>k < j. \<not> ascii_letter (?l ! k))" by auto
        with False show ?thesis by auto
      qed
    qed
    with sentence_case_Some[OF Some[unfolded x]] show ?thesis by simp
  qed
next
  show "(\<forall>k < length (str_lower db seg). \<not> ascii_letter (str_lower db seg ! k))
        \<longrightarrow> sentence_case db seg = Inr (str_lower db seg)"
  proof
    assume a: "\<forall>k < length (str_lower db seg). \<not> ascii_letter (str_lower db seg ! k)"
    show "sentence_case db seg = Inr (str_lower db seg)"
    proof (cases "re_search (In ascii_letter) (str_lower db seg)")
      case None
      then show ?thesis by (rule sentence_case_None)
    next
      case (Some x)
      obtain i m where x: "x = (i, m)" by (cases x) auto
      from re_search_class_Some[OF Some[unfolded x]] a show ?thesis by auto
    qed
  qed
next
  let ?ps = "split_sentences t"
  let ?outs = "map (\<lambda>(k, p). if even k then projr (sentence_case db p) else p) (enumerate 0 ?ps)"
  have n: "normalize_case db t = Inr (concat ?outs)"
    by (simp add: normalize_case_def normalize_loop_eq)
  have "(odd k \<longrightarrow> ?outs ! k = ?ps ! k) \<and> (even k \<longrightarrow> sentence_case db (?ps ! k) = Inr (?outs ! k))"
    if "k < length ?ps" for k
  proof -
    from sentence_case_total[of db "?ps ! k"] obtain c where "sentence_case db (?ps ! k) = Inr c"
      by blast
    with that show ?thesis by (simp add: nth_enumerate_eq)
  qed
  with n show "\<exists>outs. normalize_case db t = Inr (concat outs) \<and> length outs = length ?ps
        \<and> (\<forall>k < length outs.
              (odd k \<longrightarrow> outs ! k = ?ps ! k)
              \<and> (even k \<longrightarrow> sentence_case db (?ps ! k) = Inr (outs ! k)))"
    by (intro exI[of _ ?outs]) simp
qed

theorem sentence_case_first_ascii_letter_witness:
  "sentence_case sample_db (ustr_of ''  heLLo'') = Inr (ustr_of ''  Hello'')
   \<and> str_lower sample_db (ustr_of ''  heLLo'') = ustr_of ''  hello''
   \<and> sentence_case sample_db (ustr_of ''12'') = Inr (str_lower sample_db (ustr_of ''12''))"
proof -
  have a: "sentence_case sample_db (ustr_of ''  heLLo'') = Inr (ustr_of ''  Hello'')"
    and b: "str_lower sample_db (ustr_of ''  heLLo'') = ustr_of ''  hello''"
    and c: "str_lower sample_db (ustr_of ''12'') = [49, 50]"
    by code_simp+
  have "\<forall>k < length (str_lower sample_db (ustr_of ''12'')). \<not> ascii_letter (str_lower sample_db (ustr_of ''12'') ! k)"
    unfolding c by (simp add: ascii_letter_def ascii_lower_def ascii_upper_def less_Suc_eq)
  with sentence_case_first_ascii_letter[of sample_db "ustr_of ''12''" "[]"]
  have "sentence_case sample_db (ustr_of ''12'') = Inr (str_lower sample_db (ustr_of ''12''))"
    by blast
  with a b show ?thesis by simp
qed

section \<open>The pipeline\<close>

lemma py_index_last: "xs \<noteq> [] \<Longrightarrow> py_index xs (- 1) = Inr (last xs)"
proof -
  assume ne: "xs \<noteq> []"
  then have "nat (int (length xs) - 1) = length xs - 1" by simp
  with ne show ?thesis by (simp add: py_index_def Let_def last_conv_nth)
qed

lemma py_index_first: "xs \<noteq> [] \<Longrightarrow> py_index xs 0 = Inr (hd xs)"
  by (simp add: py_index_def Let_def hd_conv_nth)

definition segment_last_word :: "unicode_db \<Rightarrow> ustr \<Rightarrow> ustr list" where
  \<comment> \<open>what one segment adds to the collected words: its last token, when it has any\<close>
  "segment_last_word db p =
     (if re_findall (word_pattern db) p \<noteq> [] then [last (re_findall (word_pattern db) p)] else [])"

lemma last_words_loop_eq:
  "last_words_loop db i ps words =
     Inr (words @ concat (map (\<lambda>(k, p). if even k then segment_last_word db p else []) (enumerate i ps)))"
proof (induction ps arbitrary: i words)
  case Nil
  then show ?case by simp
next
  case (Cons p ps)
  show ?case
    using Cons[of "Suc i"]
    by (simp add: even_iff_mod_2_eq_zero Let_def py_index_last segment_last_word_def)
qed

lemma make_sentence_eq:
  "make_sentence_from_last_words db words =
     (if words = [] then Inr []
      else Inr (str_upper db [hd (str_join (ustr_of '' '') words @ ustr_of ''.'')]
                @ tl (str_join (ustr_of '' '') words @ ustr_of ''.'')))"
proof -
  define s where "s = str_join (ustr_of '' '') words @ ustr_of ''.''"
  have ne: "s \<noteq> []" by (simp add: s_def ustr_of_def)
  then have "drop 1 s = tl s" by (simp add: drop_Suc)
  with ne show ?thesis
    unfolding make_sentence_from_last_words_def Let_def s_def[symmetric]
    by (simp add: py_index_first)
qed

lemma process_homework_total:
  "\<exists>final extra. process_homework db t = Inr (final, count_whitespace t, extra)"
proof -
  obtain n where n: "normalize_case db (fix_iz db t) = Inr n"
    by (auto simp: normalize_case_def normalize_loop_eq)
  obtain lw where lw: "last_words db n = Inr lw"
    by (auto simp: last_words_def last_words_loop_eq)
  obtain x where x: "make_sentence_from_last_words db lw = Inr x"
    by (cases "lw = []") (auto simp: make_sentence_eq)
  show ?thesis by (simp add: process_homework_def Let_def n lw x)
qed

text \<open>
  Claim C6.  On the empty string the pipeline returns the empty text, the count 0 and the
  empty extra sentence; on every string it returns a result and raises no error.
\<close>

theorem process_homework_empty_and_total:
  "process_homework db [] = Inr ([], 0, [])
   \<and> (\<exists>final n extra. process_homework db t = Inr (final, n, extra))"
proof
  show "process_homework db [] = Inr ([], 0, [])" by code_simp
next
  from process_homework_total[of db t]
  show "\<exists>final n extra. process_homework db t = Inr (final, n, extra)" by blast
qed

theorem process_homework_empty_and_total_witness:
  "process_homework sample_db [] = Inr ([], 0, [])
   \<and> (\<exists>final n extra. process_homework sample_db (ustr_of ''?! iz'') = Inr (final, n, extra))"
  by (rule process_homework_empty_and_total)

text \<open>
  Claim C4.  \<open>count_whitespace\<close> returns the number of positions of the text that hold a
  whitespace character; the space, tab, newline, carriage return, the no-break space and
  the space separators of Unicode are whitespace; the count that \<open>process_homework\<close>
  returns is the count of its input text.
\<close>

theorem count_whitespace_counts:
  "count_whitespace t = int (card {i. i < length t \<and> py_isspace (t ! i)})
   \<and> py_isspace 0x20 \<and> py_isspace 0x09 \<and> py_isspace 0x0A \<and> py_isspace 0x0D \<and> py_isspace 0xA0
   \<and> (\<forall>c. c = 0x1680 \<or> (0x2000 \<le> c \<and> c \<le> 0x200A) \<or> c = 0x202F \<or> c = 0x205F \<or> c = 0x3000
          \<longrightarrow> py_isspace c)
   \<and> (\<exists>final extra. process_homework db t = Inr (final, count_whitespace t, extra))"
proof (intro conjI)
  have "count_whitespace t = int (length (filter py_isspace t))"
    by (induction t) (simp_all add: count_whitespace_def)
  then show "count_whitespace t = int (card {i. i < length t \<and> py_isspace (t ! i)})"
    by (simp add: length_filter_conv_card)
next
  show "\<exists>final extra. process_homework db t = Inr (final, count_whitespace t, extra)"
    by (rule process_homework_total)
qed (auto simp: py_isspace_def)

theorem count_whitespace_counts_witness:
  "count_whitespace [0x61, 0x20, 0xA0, 0x09, 0x62, 0x0A, 0x3000] = 5
   \<and> int (card {i. i < length [0x61, 0x20, 0xA0, 0x09, 0x62, 0x0A, 0x3000 :: nat]
                 \<and> py_isspace ([0x61, 0x20, 0xA0, 0x09, 0x62, 0x0A, 0x3000] ! i)}) = 5"
proof -
  have "count_whitespace [0x61, 0x20, 0xA0, 0x09, 0x62, 0x0A, 0x3000] = 5"
    by (simp add: count_whitespace_def py_isspace_def)
  with count_whitespace_counts[of "[0x61, 0x20, 0xA0, 0x09, 0x62, 0x0A, 0x3000]" sample_db]
  show ?thesis by simp
qed

text \<open>
  Claim C8.  The correction turns \<open>tHis iz your homeWork.\<close> into \<open>tHis is your homeWork.\<close>,
  and the case normalization turns that into \<open>This is your homework.\<close>.
\<close>

theorem homework_example:
  "fix_iz db (ustr_of ''tHis iz your homeWork.'') = ustr_of ''tHis is your homeWork.''
   \<and> normalize_case db (ustr_of ''tHis is your homeWork.'') = Inr (ustr_of ''This is your homework.'')"
  by code_simp

theorem homework_example_witness:
  "fix_iz sample_db (ustr_of ''tHis iz your homeWork.'') = ustr_of ''tHis is your homeWork.''
   \<and> normalize_case sample_db (ustr_of ''tHis is your homeWork.'') = Inr (ustr_of ''This is your homework.'')"
  by (rule homework_example)

section \<open>The last-word collector\<close>

definition run_end :: "ustr \<Rightarrow> nat \<Rightarrow> nat" where
  \<comment> \<open>the end of the run of ASCII letters that starts at a position\<close>
  "run_end s i = i + length (takeWhile ascii_letter (drop i s))"

definition word_start :: "unicode_db \<Rightarrow> ustr \<Rightarrow> nat \<Rightarrow> bool" where
  "word_start db s i =
     (i < length s \<and> ascii_letter (s ! i) \<and> at_boundary (uni_isword db) s i
      \<and> at_boundary (uni_isword db) s (run_end s i))"

lemma run_end_le: "i \<le> length s \<Longrightarrow> run_end s i \<le> length s"
proof -
  assume "i \<le> length s"
  moreover have "length (takeWhile ascii_letter (drop i s)) \<le> length (drop i s)"
    by (rule length_takeWhile_le)
  ultimately show ?thesis by (simp add: run_end_def)
qed

lemma run_end_letters: "i \<le> k \<Longrightarrow> k < run_end s i \<Longrightarrow> ascii_letter (s ! k)"
proof -
  assume a: "i \<le> k" "k < run_end s i"
  let ?tw = "takeWhile ascii_letter (drop i s)"
  from a have k: "k - i < length ?tw" by (simp add: run_end_def)
  then have "?tw ! (k - i) \<in> set ?tw" by (rule nth_mem)
  then have 1: "ascii_letter (?tw ! (k - i))" by (rule set_takeWhileD[THEN conjunct2])
  have 2: "?tw ! (k - i) = drop i s ! (k - i)"
    using k by (rule takeWhile_nth)
  have "length ?tw \<le> length (drop i s)" by (rule length_takeWhile_le)
  with k have "k - i < length (drop i s)" by simp
  then have "drop i s ! (k - i) = s ! (i + (k - i))" by simp
  also have "i + (k - i) = k" using a(1) by simp
  finally show ?thesis using 1 2 by simp
qed

lemma run_end_stop: "run_end s i < length s \<Longrightarrow> \<not> ascii_letter (s ! run_end s i)"
proof -
  assume a: "run_end s i < length s"
  then have "length (takeWhile ascii_letter (drop i s)) < length (drop i s)"
    by (simp add: run_end_def)
  from nth_length_takeWhile[OF this] a show ?thesis
    by (simp add: run_end_def)
qed

lemma run_end_Suc:
  "i < length s \<Longrightarrow> ascii_letter (s ! i) \<Longrightarrow>
     run_end s i = Suc i + length (takeWhile ascii_letter (drop (Suc i) s))"
  by (simp add: run_end_def Cons_nth_drop_Suc[symmetric])

lemma ascii_letter_word: "ascii_letter c \<Longrightarrow> uni_isword db c"
  by (auto simp: uni_isword_def uni_isalnum_def ascii_letter_def ascii_lower_def ascii_upper_def)

lemma inner_no_boundary:
  assumes "i < k" "k < run_end s i" "i \<le> length s"
  shows "\<not> at_boundary (uni_isword db) s k"
proof -
  from assms have "ascii_letter (s ! (k - 1))" "ascii_letter (s ! k)"
    by (auto intro: run_end_letters[of i])
  then have "uni_isword db (s ! (k - 1))" "uni_isword db (s ! k)"
    by (auto intro: ascii_letter_word)
  moreover from assms run_end_le[of i s] have "k < length s" by simp
  ultimately show ?thesis using assms(1) by (simp add: at_boundary_def)
qed

lemma filter_run_ends:
  assumes "i < e" "\<And>k. i < k \<Longrightarrow> k < e \<Longrightarrow> \<not> P k"
  shows "filter P (rev [Suc i..<Suc e]) = (if P e then [e] else [])"
proof -
  have "filter P [Suc i..<e] = []" using assms(2) by (auto simp: filter_empty_conv)
  moreover have "[Suc i..<Suc e] = [Suc i..<e] @ [e]" using assms(1) by simp
  ultimately show ?thesis by (simp del: upt_Suc add: rev_filter[symmetric])
qed

lemma concat_boundary:
  "concat (map (rmatch (Boundary w) s) (map (\<lambda>(j, _). (j, Some (i, j))) (map (\<lambda>k. (k, g)) ks)))
     = map (\<lambda>k. (k, Some (i, k))) (filter (at_boundary w s) ks)"
  by (induction ks) auto

lemma rmatch_word:
  "rmatch (word_pattern db) s (i, g) =
     (if word_start db s i then [(run_end s i, Some (i, run_end s i))] else [])"
proof (cases "i < length s \<and> ascii_letter (s ! i) \<and> at_boundary (uni_isword db) s i")
  case False
  then show ?thesis
    by (auto simp: word_pattern_def Rep1_def word_start_def)
next
  case True
  then have lt: "i < length s" and l: "ascii_letter (s ! i)" and b: "at_boundary (uni_isword db) s i"
    by auto
  let ?e = "run_end s i"
  have e: "?e = Suc i + length (takeWhile ascii_letter (drop (Suc i) s))"
    using lt l by (rule run_end_Suc)
  then have ie: "i < ?e" by simp
  have ends: "rmatch (Rep1 (In ascii_letter)) s (i, g) = map (\<lambda>k. (k, g)) (rev [Suc i..<Suc ?e])"
    using lt l by (simp add: Rep1_def rmatch_star_class e del: upt_Suc)
  have "rmatch (Seq (Group (Rep1 (In ascii_letter))) (Boundary (uni_isword db))) s (i, g)
        = map (\<lambda>k. (k, Some (i, k))) (filter (at_boundary (uni_isword db) s) (rev [Suc i..<Suc ?e]))"
    unfolding rmatch.simps(2) rmatch.simps(6) ends
    by (rule concat_boundary)
  also have "filter (at_boundary (uni_isword db) s) (rev [Suc i..<Suc ?e])
        = (if at_boundary (uni_isword db) s ?e then [?e] else [])"
  proof (rule filter_run_ends[OF ie])
    fix k assume "i < k" "k < ?e"
    with lt show "\<not> at_boundary (uni_isword db) s k"
      using inner_no_boundary[of i k s db] by simp
  qed
  finally show ?thesis using True by (simp add: word_pattern_def word_start_def)
qed

lemma first_match_word:
  "first_match (word_pattern db) s i ma =
     (if word_start db s i then Some (run_end s i, Some (i, run_end s i)) else None)"
proof (cases "word_start db s i")
  case True
  then have "run_end s i \<noteq> i"
    using run_end_Suc[of i s] by (simp add: word_start_def)
  with True show ?thesis by (simp add: first_match_def rmatch_word)
next
  case False
  then show ?thesis by (simp add: first_match_def rmatch_word)
qed

lemma word_start_bounds: "word_start db s i \<Longrightarrow> i < run_end s i \<and> run_end s i \<le> length s"
  using run_end_Suc[of i s] run_end_le[of i s] by (simp add: word_start_def)

lemma word_start_inner:
  assumes "i < k" "k < run_end s i" "i \<le> length s"
  shows "\<not> word_start db s k"
  using inner_no_boundary[OF assms] by (simp add: word_start_def)

lemma filter_upt_head:
  assumes "i < e" "e \<le> n" "P i" "\<And>k. i < k \<Longrightarrow> k < e \<Longrightarrow> \<not> P k"
  shows "filter P [i..<n] = i # filter P [e..<n]"
proof -
  have "[i..<n] = [i..<e] @ [e..<n]"
    using assms(1,2) by (metis le_add_diff_inverse less_imp_le_nat upt_add_eq_append)
  moreover have "[i..<e] = i # [Suc i..<e]" using assms(1) by (simp add: upt_conv_Cons)
  moreover have "filter P [Suc i..<e] = []" using assms(4) by (auto simp: filter_empty_conv)
  ultimately show ?thesis using assms(3) by simp
qed

lemma re_spans_word:
  "re_spans (word_pattern db) s i ma =
     map (\<lambda>b. (b, run_end s b, Some (b, run_end s b))) (filter (word_start db s) [i..<length s])"
proof (induction i ma rule: spans_induct[where r = "word_pattern db" and s = s])
  case (past i ma)
  then show ?case by (simp add: re_spans_past)
next
  case (skip i ma)
  from skip(2) have no: "\<not> word_start db s i" by (simp add: first_match_word split: if_splits)
  show ?case
  proof (cases "i = length s")
    case True
    with re_spans_None_step[OF skip(2)] show ?thesis by (simp add: re_spans_past)
  next
    case False
    with skip(1) have "i < length s" by simp
    with skip(3) no show ?thesis
      by (simp add: re_spans_None_step[OF skip(2)] upt_conv_Cons)
  qed
next
  case (hit i ma e g)
  from hit(2) have st: "word_start db s i" and e: "e = run_end s i" and g: "g = Some (i, e)"
    by (auto simp: first_match_word split: if_splits)
  from word_start_bounds[OF st] e have ie: "i < e" by simp
  have "filter (word_start db s) [i..<length s] = i # filter (word_start db s) [e..<length s]"
    using ie hit(4) st
  proof (rule filter_upt_head)
    fix k assume "i < k" "k < e"
    with hit(1) e show "\<not> word_start db s k" using word_start_inner[of i k s db] by simp
  qed
  with hit(5) e g show ?case
    by (simp add: re_spans_Some_step[OF hit(1) hit(2)])
qed

lemma re_findall_word:
  "re_findall (word_pattern db) s =
     map (\<lambda>b. slice s b (run_end s b)) (filter (word_start db s) [0..<length s])"
  by (simp add: re_findall_def re_spans_word group_text_def comp_def)

text \<open>
  In the words of the specification: a word is a maximal run of letters bounded by word
  boundaries.  The notion of letter is a parameter, as for the sentence case.
\<close>

definition word_run :: "(nat \<Rightarrow> bool) \<Rightarrow> (nat \<Rightarrow> bool) \<Rightarrow> ustr \<Rightarrow> nat \<Rightarrow> nat \<Rightarrow> bool" where
  "word_run letter w s b e =
     (b < e \<and> e \<le> length s \<and> (\<forall>k. b \<le> k \<and> k < e \<longrightarrow> letter (s ! k))
      \<and> at_boundary w s b \<and> at_boundary w s e)"

lemma word_run_start:
  assumes "word_run ascii_letter (uni_isword db) s b e"
  shows "word_start db s b \<and> e = run_end s b"
proof -
  from assms have be: "b < e" and el: "e \<le> length s"
    and l: "\<And>k. b \<le> k \<Longrightarrow> k < e \<Longrightarrow> ascii_letter (s ! k)"
    and b1: "at_boundary (uni_isword db) s b" and b2: "at_boundary (uni_isword db) s e"
    by (auto simp: word_run_def)
  from l[of "e - 1"] be have "uni_isword db (s ! (e - 1))" by (auto intro: ascii_letter_word)
  with b2 be have stop: "e < length s \<Longrightarrow> \<not> ascii_letter (s ! e)"
    by (auto simp: at_boundary_def dest: ascii_letter_word[of _ db])
  have "takeWhile ascii_letter (drop b s) = take (e - b) (drop b s)"
  proof (rule takeWhile_eq_take_P_nth)
    fix i assume "i < e - b" "i < length (drop b s)"
    then show "ascii_letter (drop b s ! i)" using l[of "b + i"] by simp
  next
    assume "e - b < length (drop b s)"
    then have "e < length s" using be by simp
    from stop[OF this] be el show "\<not> ascii_letter (drop b s ! (e - b))" by simp
  qed
  then have "run_end s b = e" using be el by (simp add: run_end_def)
  with l[of b] be el b1 b2 show ?thesis by (simp add: word_start_def)
qed

lemma word_start_run:
  assumes "word_start db s b"
  shows "word_run ascii_letter (uni_isword db) s b (run_end s b)"
  using assms word_start_bounds[OF assms] run_end_letters[of b _ s]
  by (simp add: word_run_def word_start_def)

lemma last_filter_upt:
  assumes "b < n" "P b" "\<And>k. b < k \<Longrightarrow> k < n \<Longrightarrow> \<not> P k"
  shows "filter P [0..<n] \<noteq> [] \<and> last (filter P [0..<n]) = b"
proof -
  have "[0..<n] = [0..<b] @ b # [Suc b..<n]"
    using assms(1) by (metis upt_conv_Cons le0 le_add_diff_inverse less_imp_le_nat upt_add_eq_append)
  moreover have "filter P [Suc b..<n] = []" using assms(3) by (auto simp: filter_empty_conv)
  ultimately show ?thesis using assms(2) by simp
qed

lemma segment_last_word_none:
  assumes "\<forall>b e. \<not> word_run ascii_letter (uni_isword db) p b e"
  shows "segment_last_word db p = []"
proof -
  have "\<not> word_start db p b" for b using assms word_start_run[of db p b] by blast
  then have "filter (word_start db p) [0..<length p] = []" by (simp add: filter_empty_conv)
  then show ?thesis by (simp add: segment_last_word_def re_findall_word)
qed

lemma segment_last_word_some:
  assumes r: "word_run ascii_letter (uni_isword db) p b e"
    and m: "\<forall>b' e'. word_run ascii_letter (uni_isword db) p b' e' \<longrightarrow> b' \<le> b"
  shows "segment_last_word db p = [slice p b e]"
proof -
  from word_run_start[OF r] have st: "word_start db p b" and e: "e = run_end p b" by auto
  from st have bl: "b < length p" by (simp add: word_start_def)
  have "\<not> word_start db p k" if "b < k" for k
    using m word_start_run[of db p k] that by (meson not_le)
  with bl st have "filter (word_start db p) [0..<length p] \<noteq> [] \<and> last (filter (word_start db p) [0..<length p]) = b"
    by (intro last_filter_upt) auto
  then show ?thesis by (simp add: segment_last_word_def re_findall_word last_map e)
qed

lemma segment_last_word_letters:
  assumes "w \<in> set (segment_last_word db p)"
  shows "w \<noteq> [] \<and> ascii_letter (hd w)"
proof -
  let ?F = "filter (word_start db p) [0..<length p]"
  from assms have ne: "?F \<noteq> []" and w: "w = slice p (last ?F) (run_end p (last ?F))"
    by (auto simp: segment_last_word_def re_findall_word last_map split: if_splits)
  from ne have "last ?F \<in> set ?F" by (rule last_in_set)
  then have st: "word_start db p (last ?F)" by simp
  from word_start_bounds[OF st] st have "last ?F < run_end p (last ?F)" "last ?F < length p"
    "ascii_letter (p ! last ?F)"
    by (auto simp: word_start_def)
  with w show ?thesis by (simp add: slice_def hd_drop_conv_nth hd_take)
qed

definition segments :: "ustr \<Rightarrow> ustr list" where
  \<comment> \<open>the elements at even indices of the split: the segments, without the delimiters\<close>
  "segments text = map snd (filter (\<lambda>(k, p). even k) (enumerate 0 (split_sentences text)))"

definition ascii_capitalize :: "ustr \<Rightarrow> ustr" where
  "ascii_capitalize s = (case s of [] \<Rightarrow> [] | c # cs \<Rightarrow> (if ascii_lower c then c - 32 else c) # cs)"

definition spec_synthetic_sentence :: "ustr list \<Rightarrow> ustr" where
  \<comment> \<open>the words joined by single spaces, a period appended, the first letter capitalized\<close>
  "spec_synthetic_sentence words = ascii_capitalize (str_join (ustr_of '' '') words @ ustr_of ''.'')"

lemma concat_even_enumerate:
  "concat (map (\<lambda>(k, p). if even k then f p else []) xs)
     = concat (map f (map snd (filter (\<lambda>(k, p). even k) xs)))"
  by (induction xs) auto

lemma last_words_eq:
  "last_words db text = Inr (concat (map (segment_last_word db) (segments text)))"
  by (simp add: last_words_def last_words_loop_eq segments_def concat_even_enumerate)

lemma last_words_letters:
  assumes "last_words db text = Inr lw" and "w \<in> set lw"
  shows "w \<noteq> [] \<and> ascii_letter (hd w)"
proof -
  from assms obtain p where "w \<in> set (segment_last_word db p)"
    by (auto simp: last_words_eq)
  then show ?thesis by (rule segment_last_word_letters)
qed

lemma hd_str_join: "w \<noteq> [] \<Longrightarrow> hd (str_join sep (w # ws) @ x) = hd w"
  by (cases ws) auto

lemma make_sentence_letters:
  assumes "lw \<noteq> []" and "hd lw \<noteq> []" and "ascii_letter (hd (hd lw))"
  shows "make_sentence_from_last_words db lw = Inr (spec_synthetic_sentence lw)"
proof -
  define s where "s = str_join (ustr_of '' '') lw @ ustr_of ''.''"
  have ne: "s \<noteq> []" by (simp add: s_def ustr_of_def)
  from assms(1) obtain w ws where lw: "lw = w # ws" by (cases lw) auto
  with assms(2) have "hd s = hd w" by (simp add: s_def hd_str_join)
  with assms(3) lw have l: "ascii_letter (hd s)" by simp
  from ne have "ascii_capitalize s = (if ascii_lower (hd s) then hd s - 32 else hd s) # tl s"
    by (cases s) (simp_all add: ascii_capitalize_def)
  with assms(1) show ?thesis
    unfolding make_sentence_eq spec_synthetic_sentence_def s_def[symmetric]
    by (simp add: str_upper_ascii_letter[OF l])
qed

lemma pipeline_extra:
  "\<exists>normalized lw final n extra.
      normalize_case db (fix_iz db t) = Inr normalized \<and> last_words db normalized = Inr lw
      \<and> process_homework db t = Inr (final, n, extra)
      \<and> extra = (if lw = [] then [] else spec_synthetic_sentence lw)"
proof -
  obtain nm where nm: "normalize_case db (fix_iz db t) = Inr nm"
    by (auto simp: normalize_case_def normalize_loop_eq)
  obtain lw where lw: "last_words db nm = Inr lw"
    by (auto simp: last_words_eq)
  have x: "make_sentence_from_last_words db lw = Inr (if lw = [] then [] else spec_synthetic_sentence lw)"
  proof (cases "lw = []")
    case True
    then show ?thesis by (auto simp: make_sentence_eq)
  next
    case False
    then have "hd lw \<in> set lw" by simp
    from last_words_letters[OF lw this] False show ?thesis
      by (simp add: make_sentence_letters)
  qed
  define extra where "extra = (if lw = [] then [] else spec_synthetic_sentence lw)"
  have "process_homework db t =
      Inr (nm @ (if extra \<noteq> [] then [10, 10] @ extra else []), count_whitespace t, extra)"
    by (simp add: process_homework_def Let_def nm lw x extra_def)
  with nm lw extra_def show ?thesis by blast
qed

text \<open>
  Claim C5 as stated fails where no word is collected: on the empty input the collected
  words are none and the program's synthetic sentence is empty, while no words joined,
  with a period appended, are the one-character string of the period.  It also fails
  when letters are the letters of Unicode: in the segment \<open>a\<close>, space, \<open>U+00E9\<close> the last
  letter run bounded by word boundaries is the small e with acute, and the program
  collects \<open>a\<close>.
\<close>

theorem synthetic_sentence_counterexample:
  "last_words sample_db [] = Inr []
   \<and> process_homework sample_db [] = Inr ([], 0, [])
   \<and> spec_synthetic_sentence [] = [0x2E]
   \<and> make_sentence_from_last_words sample_db [] \<noteq> Inr (spec_synthetic_sentence [])
   \<and> word_run (uni_isalpha sample_db) (uni_isword sample_db) [0x61, 0x20, 0xE9] 2 3
   \<and> segment_last_word sample_db [0x61, 0x20, 0xE9] = [[0x61]]"
proof -
  have "last_words sample_db [] = Inr []" "process_homework sample_db [] = Inr ([], 0, [])"
    "spec_synthetic_sentence [] = [0x2E]" "segment_last_word sample_db [0x61, 0x20, 0xE9] = [[0x61]]"
    "make_sentence_from_last_words sample_db [] = Inr []"
    by code_simp+
  moreover have "word_run (uni_isalpha sample_db) (uni_isword sample_db) [0x61, 0x20, 0xE9] 2 3"
    by (auto simp: word_run_def at_boundary_def uni_isalpha_def uni_isword_def uni_isalnum_def
        sample_db_def ascii_letter_def ascii_lower_def ascii_upper_def ascii_digit_def
        numeral_2_eq_2 numeral_3_eq_3 less_Suc_eq)
  ultimately show ?thesis by simp
qed

text \<open>
  Claim C5, amended.  The collected last words are, for each segment of the normalized
  text in order, the last maximal run of ASCII letters bounded by word boundaries, when
  the segment has any.  When at least one word is collected, the synthetic sentence is
  these words joined by single spaces with a period appended and the first letter
  capitalized; when none is collected, it is empty.  For the input
  \<open>Hello world. Bye now.\<close> the collected words are \<open>world\<close> and \<open>now\<close>, and the synthetic
  sentence is \<open>World now.\<close>.
\<close>

theorem last_words_and_sentence:
  "last_words db text = Inr (concat (map (segment_last_word db) (segments text)))
   \<and> ((\<forall>b e. \<not> word_run ascii_letter (uni_isword db) p b e) \<longrightarrow> segment_last_word db p = [])
   \<and> (word_run ascii_letter (uni_isword db) p b e
        \<and> (\<forall>b' e'. word_run ascii_letter (uni_isword db) p b' e' \<longrightarrow> b' \<le> b)
        \<longrightarrow> segment_last_word db p = [slice p b e])
   \<and> (\<exists>normalized lw final n extra.
        normalize_case db (fix_iz db t) = Inr normalized \<and> last_words db normalized = Inr lw
        \<and> process_homework db t = Inr (final, n, extra)
        \<and> extra = (if lw = [] then [] else spec_synthetic_sentence lw))
   \<and> last_words db (ustr_of ''Hello world. Bye now.'') = Inr [ustr_of ''world'', ustr_of ''now'']
   \<and> process_homework db (ustr_of ''Hello world. Bye now.'')
       = Inr (ustr_of ''Hello world. Bye now.'' @ [10, 10] @ ustr_of ''World now.'', 3,
              ustr_of ''World now.'')"
proof (intro conjI)
  show "last_words db text = Inr (concat (map (segment_last_word db) (segments text)))"
    by (rule last_words_eq)
  show "(\<forall>b e. \<not> word_run ascii_letter (uni_isword db) p b e) \<longrightarrow> segment_last_word db p = []"
    using segment_last_word_none[of db p] by blast
  show "word_run ascii_letter (uni_isword db) p b e
        \<and> (\<forall>b' e'. word_run ascii_letter (uni_isword db) p b' e' \<longrightarrow> b' \<le> b)
        \<longrightarrow> segment_last_word db p = [slice p b e]"
    using segment_last_word_some[of db p b e] by blast
  show "\<exists>normalized lw final n extra.
        normalize_case db (fix_iz db t) = Inr normalized \<and> last_words db normalized = Inr lw
        \<and> process_homework db t = Inr (final, n, extra)
        \<and> extra = (if lw = [] then [] else spec_synthetic_sentence lw)"
    by (rule pipeline_extra)
  show "last_words db (ustr_of ''Hello world. Bye now.'') = Inr [ustr_of ''world'', ustr_of ''now'']"
    by code_simp
  show "process_homework db (ustr_of ''Hello world. Bye now.'')
       = Inr (ustr_of ''Hello world. Bye now.'' @ [10, 10] @ ustr_of ''World now.'', 3,
              ustr_of ''World now.'')"
    by code_simp
qed

theorem last_words_and_sentence_witness:
  "word_run ascii_letter (uni_isword sample_db) (ustr_of ''it a'') 3 4
   \<and> segment_last_word sample_db (ustr_of ''it a'') = [ustr_of ''a'']
   \<and> segment_last_word sample_db [] = []
   \<and> spec_synthetic_sentence [ustr_of ''world'', ustr_of ''now''] = ustr_of ''World now.''"
proof -
  have r: "word_run ascii_letter (uni_isword sample_db) (ustr_of ''it a'') 3 4"
    by (auto simp: word_run_def at_boundary_def ustr_of_def uni_isword_def uni_isalnum_def
        ascii_letter_def ascii_lower_def ascii_upper_def ascii_digit_def
        numeral_3_eq_3 less_Suc_eq)
  have m: "\<forall>b' e'. word_run ascii_letter (uni_isword sample_db) (ustr_of ''it a'') b' e' \<longrightarrow> b' \<le> 3"
    by (auto simp: word_run_def ustr_of_def)
  have s: "slice (ustr_of ''it a'') 3 4 = ustr_of ''a''"
    by (simp add: slice_def ustr_of_def numeral_3_eq_3)
  have n: "\<forall>b e. \<not> word_run ascii_letter (uni_isword sample_db) [] b e"
    by (simp add: word_run_def)
  have c: "spec_synthetic_sentence [ustr_of ''world'', ustr_of ''now''] = ustr_of ''World now.''"
    by code_simp
  from last_words_and_sentence[of sample_db "[]" "ustr_of ''it a''" 3 4 "[]"] r m s
  have "segment_last_word sample_db (ustr_of ''it a'') = [ustr_of ''a'']" by simp
  moreover from last_words_and_sentence[of sample_db "[]" "[]" 0 0 "[]"] n
  have "segment_last_word sample_db [] = []" by blast
  ultimately show ?thesis using r c by simp
qed

end
